theory Spec2Isabelle
  imports Main "HOL-Library.Word" "HOL-Library.Monad_Syntax" "HOL-Library.Signed_Division"
begin

section \<open>LEDKontroller: the Arduino sketch as state-passing functions\<close>

text \<open>
  The sketch runs on an Arduino Uno: \<^verbatim>\<open>unsigned long\<close> is 32 bits wide and its
  arithmetic wraps, \<^verbatim>\<open>long\<close> is 32 bits signed, \<^verbatim>\<open>int\<close> is 16 bits signed.
  Timestamps are \<open>32 word\<close>. The \<^verbatim>\<open>int\<close> and \<^verbatim>\<open>long\<close> arguments are
  mathematical integers; the one conversion the sketch makes,
  \<^verbatim>\<open>(unsigned long)period\<close>, is \<open>word_of_int\<close>. The only \<^verbatim>\<open>int\<close> arithmetic is
  \<^verbatim>\<open>brightness + fadeAmount\<close>, \<^verbatim>\<open>-fadeAmount\<close>, \<^verbatim>\<open>delayMillis/2\<close> and
  \<^verbatim>\<open>program += 1\<close>; with a step of at most 255 in absolute value the brightness stays
  within 510 of zero and the counter never exceeds 7, so none of them leaves 16 bits.
\<close>

type_synonym ulong = "32 word"

subsection \<open>The outside world\<close>

text \<open>
  The sketch looks at the world in four places only: \<^verbatim>\<open>millis()\<close>, a read of the
  volatile flag \<^verbatim>\<open>remoteState\<close>, \<^verbatim>\<open>delay()\<close> and \<^verbatim>\<open>random()\<close>.
  Each such look consumes one observation. An observation carries the value the millisecond
  counter has at that moment, the pin level sampled by the interrupt handler if the CHANGE
  interrupt fired since the previous observation, and the raw value the library's
  pseudo-random generator would hand out.  A routine that is still running when the list of
  observations ends has the value \<open>None\<close>.
\<close>

record obs =
  now :: ulong
  edge :: "bool option"
  rand :: nat

record kontroller =
  lastOn :: ulong
  lastOff :: ulong
  remoteState :: bool
  out :: "(int \<times> int) list"
  env :: "obs list"

definition remoteIn :: int where "remoteIn = 2"
definition rLed :: int where "rLed = 9"
definition gLed :: int where "gLed = 10"
definition bLed :: int where "bLed = 11"
definition ledPins :: "int list" where "ledPins = [rLed, gLed, bLed]"
definition fastPollMillis :: int where "fastPollMillis = 100"

text \<open>\<^verbatim>\<open>updateState\<close>, the interrupt handler; its argument is what \<^verbatim>\<open>digitalRead\<close> returns.\<close>

definition updateState :: "bool \<Rightarrow> kontroller \<Rightarrow> kontroller" where
  "updateState level s = s\<lparr>remoteState := level\<rparr>"

definition interrupt :: "obs \<Rightarrow> kontroller \<Rightarrow> kontroller" where
  "interrupt e s = (case edge e of None \<Rightarrow> s | Some level \<Rightarrow> updateState level s)"

definition observe :: "kontroller \<Rightarrow> (obs \<times> kontroller) option" where
  "observe s = (case env s of [] \<Rightarrow> None
                | e # es \<Rightarrow> Some (e, (interrupt e s)\<lparr>env := es\<rparr>))"

definition millis :: "kontroller \<Rightarrow> (ulong \<times> kontroller) option" where
  "millis s = (case observe s of None \<Rightarrow> None | Some (e, s') \<Rightarrow> Some (now e, s'))"

definition readRemoteState :: "kontroller \<Rightarrow> (bool \<times> kontroller) option" where
  "readRemoteState s =
     (case observe s of None \<Rightarrow> None | Some (e, s') \<Rightarrow> Some (remoteState s', s'))"

definition delay :: "int \<Rightarrow> kontroller \<Rightarrow> kontroller option" where
  "delay ms s = (case observe s of None \<Rightarrow> None | Some (e, s') \<Rightarrow> Some s')"

text \<open>
  \<^verbatim>\<open>random(lo, hi)\<close> and \<^verbatim>\<open>random(howbig)\<close> of the Arduino core, which reduce the
  raw generator value modulo the width of the interval.
\<close>

definition random2 :: "int \<Rightarrow> int \<Rightarrow> kontroller \<Rightarrow> (int \<times> kontroller) option" where
  "random2 lo hi s =
     (if lo \<ge> hi then Some (lo, s)
      else case observe s of None \<Rightarrow> None
           | Some (e, s') \<Rightarrow> Some (int (rand e) mod (hi - lo) + lo, s'))"

definition random1 :: "int \<Rightarrow> kontroller \<Rightarrow> (int \<times> kontroller) option" where
  "random1 howbig s =
     (if howbig = 0 then Some (0, s)
      else case observe s of None \<Rightarrow> None
           | Some (e, s') \<Rightarrow> Some (int (rand e) mod howbig, s'))"

subsection \<open>Signal monitor\<close>

definition millisSinceLastOff :: "kontroller \<Rightarrow> (ulong \<times> kontroller) option" where
  "millisSinceLastOff s =
     (case millis s of None \<Rightarrow> None | Some (t, s') \<Rightarrow> Some (t - lastOff s', s'))"

definition millisSinceLastOn :: "kontroller \<Rightarrow> (ulong \<times> kontroller) option" where
  "millisSinceLastOn s =
     (case millis s of None \<Rightarrow> None | Some (t, s') \<Rightarrow> Some (t - lastOn s', s'))"

text \<open>
  \<^verbatim>\<open>switchOn\<close> reads the volatile flag twice, once in the condition and once for the
  returned value, and calls \<^verbatim>\<open>millis()\<close> once per elapsed-time helper and once more for
  the timestamp it stores. C++ leaves open which operand of a comparison is evaluated
  first; here the left one is, as the source reads.
\<close>

definition switchOn :: "kontroller \<Rightarrow> (bool \<times> kontroller) option" where
  "switchOn s = do {
     (r, s1) \<leftarrow> readRemoteState s;
     s2 \<leftarrow> (if r then do {
              (a, sa) \<leftarrow> millisSinceLastOff s1;
              (b, sb) \<leftarrow> millisSinceLastOn sa;
              if a \<le> b then do { (t, sc) \<leftarrow> millis sb; Some (sc\<lparr>lastOn := t\<rparr>) }
              else Some sb }
            else do {
              (a, sa) \<leftarrow> millisSinceLastOn s1;
              (b, sb) \<leftarrow> millisSinceLastOff sa;
              if a < b then do { (t, sc) \<leftarrow> millis sb; Some (sc\<lparr>lastOff := t\<rparr>) }
              else Some sb });
     readRemoteState s2 }"

subsection \<open>Interruptible wait\<close>

lemma observe_shorter: "observe s = Some (e, s') \<Longrightarrow> length (env s') < length (env s)"
  by (auto simp: observe_def split: list.splits)

lemma millis_shorter: "millis s = Some (t, s') \<Longrightarrow> length (env s') < length (env s)"
  by (auto simp: millis_def split: option.splits dest: observe_shorter)

lemma readRemoteState_shorter:
  "readRemoteState s = Some (r, s') \<Longrightarrow> length (env s') < length (env s)"
  by (auto simp: readRemoteState_def split: option.splits dest: observe_shorter)

function belay_loop :: "ulong \<Rightarrow> ulong \<Rightarrow> kontroller \<Rightarrow> kontroller option" where
  "belay_loop start period s =
     (case readRemoteState s of None \<Rightarrow> None
      | Some (r, s1) \<Rightarrow>
          if \<not> r then Some s1
          else (case millis s1 of None \<Rightarrow> None
                | Some (t, s2) \<Rightarrow>
                    if t - start \<ge> period then Some s2
                    else belay_loop start period s2))"
  by pat_completeness auto
termination
proof (relation "measure (\<lambda>(start, period, s). length (env s))")
  show "wf (measure (\<lambda>(start, period, s). length (env s)))" by simp
next
  fix start period :: ulong and s x2 x y xa s2 :: kontroller and r :: bool and t :: ulong
  show "readRemoteState s = Some x2 \<Longrightarrow> (r, s1) = x2 \<Longrightarrow> \<not> \<not> r \<Longrightarrow>
        millis s1 = Some x2a \<Longrightarrow> (t, s2) = x2a \<Longrightarrow> \<not> period \<le> t - start \<Longrightarrow>
        ((start, period, s2), start, period, s) \<in> measure (\<lambda>(start, period, s). length (env s))"
    for x2 s1 x2a
    using readRemoteState_shorter [of s r s1] millis_shorter [of s1 t s2] by simp
qed

declare belay_loop.simps [simp del]

definition belay :: "int \<Rightarrow> kontroller \<Rightarrow> kontroller option" where
  "belay period s =
     (case millis s of None \<Rightarrow> None
      | Some (start, s1) \<Rightarrow> belay_loop start (word_of_int period) s1)"

subsection \<open>Channel output\<close>

text \<open>\<^verbatim>\<open>analogWrite\<close> is the sink: \<open>out\<close> lists its calls, oldest first.\<close>

definition setLed :: "int \<Rightarrow> int \<Rightarrow> kontroller \<Rightarrow> kontroller" where
  "setLed led brightness s = s\<lparr>out := out s @ [(led, brightness)]\<rparr>"

definition ledsOff :: "kontroller \<Rightarrow> kontroller" where
  "ledsOff s = setLed bLed 0 (setLed gLed 0 (setLed rLed 0 s))"

subsection \<open>How much of the observation list a call uses up\<close>

lemma switchOn_shorter:
  "switchOn s = Some (r, s') \<Longrightarrow> length (env s') < length (env s)"
  unfolding switchOn_def millisSinceLastOff_def millisSinceLastOn_def
  by (auto split: Option.bind_splits if_splits option.splits
           dest!: millis_shorter readRemoteState_shorter)

lemma belay_loop_shorter:
  "belay_loop start period s = Some s' \<Longrightarrow> length (env s') < length (env s)"
proof (induction start period s rule: belay_loop.induct)
  case (1 start period s)
  from "1.prems" obtain r s1 where r: "readRemoteState s = Some (r, s1)"
    by (subst (asm) belay_loop.simps) (auto split: option.splits)
  note l1 = readRemoteState_shorter [OF r]
  show ?case
  proof (cases r)
    case False
    with r "1.prems" have "s' = s1" by (subst (asm) belay_loop.simps) simp
    with l1 show ?thesis by simp
  next
    case True
    with r "1.prems" obtain t s2 where m: "millis s1 = Some (t, s2)"
      by (subst (asm) belay_loop.simps) (auto split: option.splits)
    note l2 = millis_shorter [OF m]
    show ?thesis
    proof (cases "period \<le> t - start")
      case True
      with r m \<open>r\<close> "1.prems" have "s' = s2" by (subst (asm) belay_loop.simps) simp
      with l1 l2 show ?thesis by simp
    next
      case False
      with r m \<open>r\<close> "1.prems" have "belay_loop start period s2 = Some s'"
        by (subst (asm) belay_loop.simps) simp
      with "1.IH" [OF r refl _ m refl False] \<open>r\<close>
      have "length (env s') < length (env s2)" by simp
      with l1 l2 show ?thesis by simp
    qed
  qed
qed

lemma belay_shorter: "belay period s = Some s' \<Longrightarrow> length (env s') < length (env s)"
  by (auto simp: belay_def split: option.splits dest!: millis_shorter belay_loop_shorter)

lemma setLed_env [simp]: "env (setLed led b s) = env s"
  by (simp add: setLed_def)

lemma ledsOff_env [simp]: "env (ledsOff s) = env s"
  by (simp add: ledsOff_def)

lemma delay_shorter: "delay ms s = Some s' \<Longrightarrow> length (env s') < length (env s)"
  by (auto simp: delay_def split: option.splits dest: observe_shorter)

subsection \<open>Effect programs\<close>

text \<open>Static color: the loop \<^verbatim>\<open>while (switchOn()) delay(fastPollMillis)\<close>.\<close>

function staticColor_loop :: "kontroller \<Rightarrow> kontroller option" where
  "staticColor_loop s =
     (case switchOn s of None \<Rightarrow> None
      | Some (on, s1) \<Rightarrow>
          if on then (case delay fastPollMillis s1 of None \<Rightarrow> None
                      | Some s2 \<Rightarrow> staticColor_loop s2)
          else Some s1)"
  by pat_completeness auto
termination
  by (relation "measure (\<lambda>s. length (env s))")
     (auto dest!: switchOn_shorter delay_shorter)

declare staticColor_loop.simps [simp del]

definition staticColorProgram :: "int \<Rightarrow> int \<Rightarrow> int \<Rightarrow> kontroller \<Rightarrow> kontroller option" where
  "staticColorProgram r g b s =
     (case staticColor_loop (setLed bLed b (setLed gLed g (setLed rLed r s))) of
        None \<Rightarrow> None
      | Some s' \<Rightarrow> Some (ledsOff s'))"

text \<open>
  Sequential fade. \<open>fade_ramp\<close> is the inner \<^verbatim>\<open>while (remoteState)\<close> of one channel;
  it hands back the step \<^verbatim>\<open>fadeAmount\<close>, which the routine changes in place and carries
  from one channel to the next. \<open>fade_for\<close> is the \<^verbatim>\<open>for\<close> over the three channels,
  \<open>fade_outer\<close> the \<^verbatim>\<open>while (switchOn())\<close> around it.
\<close>

function fade_ramp ::
  "int \<Rightarrow> int \<Rightarrow> int \<Rightarrow> int \<Rightarrow> kontroller \<Rightarrow> (int \<times> kontroller) option" where
  "fade_ramp led delayMillis brightness fadeAmount s =
     (case readRemoteState s of None \<Rightarrow> None
      | Some (r, s1) \<Rightarrow>
          if \<not> r then Some (fadeAmount, s1)
          else
            let brightness' = brightness + fadeAmount;
                fadeAmount' = (if brightness' \<le> 0 \<or> brightness' \<ge> 255
                               then - fadeAmount else fadeAmount)
            in (case belay delayMillis (setLed led brightness' s1) of None \<Rightarrow> None
                | Some s2 \<Rightarrow>
                    if brightness' \<le> 0 then Some (fadeAmount', s2)
                    else fade_ramp led delayMillis brightness' fadeAmount' s2))"
  by pat_completeness auto
termination
  by (relation "measure (\<lambda>(led, d, b, f, s). length (env s))")
     (auto dest!: readRemoteState_shorter belay_shorter)

declare fade_ramp.simps [simp del]

fun fade_for :: "nat list \<Rightarrow> int \<Rightarrow> int \<Rightarrow> kontroller \<Rightarrow> (int \<times> kontroller) option" where
  "fade_for [] delayMillis fadeAmount s = Some (fadeAmount, s)"
| "fade_for (i # is) delayMillis fadeAmount s =
     (case fade_ramp (ledPins ! i) delayMillis 0 fadeAmount s of None \<Rightarrow> None
      | Some (fadeAmount', s') \<Rightarrow> fade_for is delayMillis fadeAmount' s')"

lemma fade_ramp_shorter:
  "fade_ramp led d b f s = Some (f', s') \<Longrightarrow> length (env s') < length (env s)"
proof (induction led d b f s rule: fade_ramp.induct)
  case (1 led d b f s)
  from "1.prems" obtain r s1 where r: "readRemoteState s = Some (r, s1)"
    by (subst (asm) fade_ramp.simps) (auto split: option.splits)
  note l1 = readRemoteState_shorter [OF r]
  show ?case
  proof (cases r)
    case False
    with r "1.prems" have "s' = s1" by (subst (asm) fade_ramp.simps) simp
    with l1 show ?thesis by simp
  next
    case True
    define b' where "b' = b + f"
    define f2 where "f2 = (if b' \<le> 0 \<or> b' \<ge> 255 then - f else f)"
    from True r "1.prems" obtain s2 where w: "belay d (setLed led b' s1) = Some s2"
      by (subst (asm) fade_ramp.simps) (auto simp: Let_def b'_def split: option.splits)
    from belay_shorter [OF w] have l2: "length (env s2) < length (env s1)" by simp
    show ?thesis
    proof (cases "b' \<le> 0")
      case True
      with r w \<open>r\<close> "1.prems" have "s' = s2"
        by (subst (asm) fade_ramp.simps) (simp add: Let_def b'_def)
      with l1 l2 show ?thesis by simp
    next
      case False
      with r w \<open>r\<close> "1.prems" have "fade_ramp led d b' f2 s2 = Some (f', s')"
        by (subst (asm) fade_ramp.simps) (simp add: Let_def b'_def f2_def)
      with "1.IH" [OF r refl _ b'_def f2_def w False] \<open>r\<close>
      have "length (env s') < length (env s2)" by simp
      with l1 l2 show ?thesis by simp
    qed
  qed
qed

lemma fade_for_shorter:
  "fade_for is d f s = Some (f', s') \<Longrightarrow> length (env s') \<le> length (env s)"
  by (induction "is" arbitrary: f s)
     (fastforce split: option.splits dest!: fade_ramp_shorter)+

function fade_outer :: "int \<Rightarrow> int \<Rightarrow> kontroller \<Rightarrow> kontroller option" where
  "fade_outer delayMillis fadeAmount s =
     (case switchOn s of None \<Rightarrow> None
      | Some (on, s1) \<Rightarrow>
          if on then (case fade_for [0, 1, 2] delayMillis fadeAmount s1 of None \<Rightarrow> None
                      | Some (fadeAmount', s2) \<Rightarrow> fade_outer delayMillis fadeAmount' s2)
          else Some s1)"
  by pat_completeness auto
termination
  by (relation "measure (\<lambda>(d, f, s). length (env s))")
     (auto simp del: fade_for.simps dest!: switchOn_shorter fade_for_shorter)

declare fade_outer.simps [simp del]

definition fadeLedProgram :: "int \<Rightarrow> int \<Rightarrow> kontroller \<Rightarrow> kontroller option" where
  "fadeLedProgram fadeAmount delayMillis s =
     (case fade_outer delayMillis fadeAmount s of None \<Rightarrow> None
      | Some s' \<Rightarrow> Some (ledsOff s'))"

text \<open>Synchronized fade: one shared brightness, kept across the iterations of the loop.\<close>

function alt_fade_loop :: "int \<Rightarrow> int \<Rightarrow> int \<Rightarrow> kontroller \<Rightarrow> kontroller option" where
  "alt_fade_loop delayMillis brightness fadeAmount s =
     (case switchOn s of None \<Rightarrow> None
      | Some (on, s1) \<Rightarrow>
          if on then
            let brightness' = brightness + fadeAmount;
                fadeAmount' = (if brightness' \<le> 0 \<or> brightness' \<ge> 255
                               then - fadeAmount else fadeAmount)
            in (case belay delayMillis
                       (setLed bLed brightness' (setLed gLed brightness'
                          (setLed rLed brightness' s1))) of
                  None \<Rightarrow> None
                | Some s2 \<Rightarrow> alt_fade_loop delayMillis brightness' fadeAmount' s2)
          else Some s1)"
  by pat_completeness auto
termination
  by (relation "measure (\<lambda>(d, b, f, s). length (env s))")
     (auto dest!: switchOn_shorter belay_shorter)

declare alt_fade_loop.simps [simp del]

definition alt_fadeLedProgram :: "int \<Rightarrow> int \<Rightarrow> kontroller \<Rightarrow> kontroller option" where
  "alt_fadeLedProgram fadeAmount delayMillis s =
     (case alt_fade_loop delayMillis 0 fadeAmount s of None \<Rightarrow> None
      | Some s' \<Rightarrow> Some (ledsOff s'))"

text \<open>Running colors.\<close>

fun running_for :: "nat list \<Rightarrow> int \<Rightarrow> kontroller \<Rightarrow> kontroller option" where
  "running_for [] delayMillis s = Some s"
| "running_for (i # is) delayMillis s =
     (case belay delayMillis (setLed (ledPins ! i) 255 s) of None \<Rightarrow> None
      | Some s1 \<Rightarrow> running_for is delayMillis (setLed (ledPins ! i) 0 s1))"

lemma running_for_shorter:
  "running_for is d s = Some s' \<Longrightarrow> length (env s') \<le> length (env s)"
  by (induction "is" arbitrary: s) (fastforce split: option.splits dest!: belay_shorter)+

function running_loop :: "int \<Rightarrow> kontroller \<Rightarrow> kontroller option" where
  "running_loop delayMillis s =
     (case switchOn s of None \<Rightarrow> None
      | Some (on, s1) \<Rightarrow>
          if on then (case running_for [0, 1, 2] delayMillis s1 of None \<Rightarrow> None
                      | Some s2 \<Rightarrow> running_loop delayMillis s2)
          else Some s1)"
  by pat_completeness auto
termination
  by (relation "measure (\<lambda>(d, s). length (env s))")
     (auto simp del: running_for.simps dest!: switchOn_shorter running_for_shorter)

declare running_loop.simps [simp del]

definition runningColorsProgram :: "int \<Rightarrow> kontroller \<Rightarrow> kontroller option" where
  "runningColorsProgram delayMillis s =
     (case running_loop delayMillis s of None \<Rightarrow> None | Some s' \<Rightarrow> Some (ledsOff s'))"

text \<open>Blink. \<^verbatim>\<open>delayMillis/2\<close> is C's division, which truncates towards zero.\<close>

function blink_loop :: "int \<Rightarrow> kontroller \<Rightarrow> kontroller option" where
  "blink_loop delayMillis s =
     (case switchOn s of None \<Rightarrow> None
      | Some (on, s1) \<Rightarrow>
          if on then
            (case belay delayMillis (setLed bLed 255 (setLed gLed 255 (setLed rLed 255 s1))) of
               None \<Rightarrow> None
             | Some s2 \<Rightarrow>
                 (case belay (delayMillis sdiv 2) (ledsOff s2) of None \<Rightarrow> None
                  | Some s3 \<Rightarrow> blink_loop delayMillis s3))
          else Some s1)"
  by pat_completeness auto
termination
  by (relation "measure (\<lambda>(d, s). length (env s))")
     (auto dest!: switchOn_shorter belay_shorter)

declare blink_loop.simps [simp del]

definition blinkLedProgram :: "int \<Rightarrow> kontroller \<Rightarrow> kontroller option" where
  "blinkLedProgram delayMillis s =
     (case blink_loop delayMillis s of None \<Rightarrow> None | Some s' \<Rightarrow> Some (ledsOff s'))"

text \<open>Color blaster: three fresh random intensities per interval.\<close>

definition randomColor :: "kontroller \<Rightarrow> kontroller option" where
  "randomColor s = do {
     (r, s1) \<leftarrow> random2 1 256 s;
     (g, s2) \<leftarrow> random2 1 256 (setLed rLed r s1);
     (b, s3) \<leftarrow> random2 1 256 (setLed gLed g s2);
     Some (setLed bLed b s3) }"

lemma random2_shorter:
  "random2 lo hi s = Some (v, s') \<Longrightarrow> length (env s') \<le> length (env s)"
  by (auto simp: random2_def split: if_splits option.splits dest!: observe_shorter)

lemma random1_shorter:
  "random1 n s = Some (v, s') \<Longrightarrow> length (env s') \<le> length (env s)"
  by (auto simp: random1_def split: if_splits option.splits dest!: observe_shorter)

lemma randomColor_shorter:
  "randomColor s = Some s' \<Longrightarrow> length (env s') \<le> length (env s)"
  unfolding randomColor_def
  by (fastforce split: Option.bind_splits dest!: random2_shorter)

function colorBlaster_loop :: "int \<Rightarrow> kontroller \<Rightarrow> kontroller option" where
  "colorBlaster_loop delayMillis s =
     (case switchOn s of None \<Rightarrow> None
      | Some (on, s1) \<Rightarrow>
          if on then
            (case randomColor s1 of None \<Rightarrow> None
             | Some s2 \<Rightarrow>
                 (case belay delayMillis s2 of None \<Rightarrow> None
                  | Some s3 \<Rightarrow> colorBlaster_loop delayMillis s3))
          else Some s1)"
  by pat_completeness auto
termination
  by (relation "measure (\<lambda>(d, s). length (env s))")
     (auto dest!: switchOn_shorter belay_shorter randomColor_shorter)

declare colorBlaster_loop.simps [simp del]

definition colorBlasterProgram :: "int \<Rightarrow> kontroller \<Rightarrow> kontroller option" where
  "colorBlasterProgram delayMillis s =
     (case colorBlaster_loop delayMillis s of None \<Rightarrow> None | Some s' \<Rightarrow> Some (ledsOff s'))"

text \<open>
  Alternative color blaster: one random channel per interval. C++ leaves open which
  argument of \<^verbatim>\<open>setLed(ledPins[random(3)], random(1, 256))\<close> is evaluated first. The
  compiler evaluates the arguments of a call from the last to the first, so the intensity
  \<^verbatim>\<open>random(1, 256)\<close> is drawn before the channel index \<^verbatim>\<open>random(3)\<close>.
\<close>

definition randomChannel :: "kontroller \<Rightarrow> kontroller option" where
  "randomChannel s = do {
     (v, s1) \<leftarrow> random2 1 256 s;
     (i, s2) \<leftarrow> random1 3 s1;
     Some (setLed (ledPins ! nat i) v s2) }"

lemma randomChannel_shorter:
  "randomChannel s = Some s' \<Longrightarrow> length (env s') \<le> length (env s)"
  unfolding randomChannel_def
  by (fastforce split: Option.bind_splits dest!: random2_shorter random1_shorter)

function alt_colorBlaster_loop :: "int \<Rightarrow> kontroller \<Rightarrow> kontroller option" where
  "alt_colorBlaster_loop delayMillis s =
     (case switchOn s of None \<Rightarrow> None
      | Some (on, s1) \<Rightarrow>
          if on then
            (case randomChannel s1 of None \<Rightarrow> None
             | Some s2 \<Rightarrow>
                 (case belay delayMillis s2 of None \<Rightarrow> None
                  | Some s3 \<Rightarrow> alt_colorBlaster_loop delayMillis s3))
          else Some s1)"
  by pat_completeness auto
termination
  by (relation "measure (\<lambda>(d, s). length (env s))")
     (auto dest!: switchOn_shorter belay_shorter randomChannel_shorter)

declare alt_colorBlaster_loop.simps [simp del]

definition alt_colorBlasterProgram :: "int \<Rightarrow> kontroller \<Rightarrow> kontroller option" where
  "alt_colorBlasterProgram delayMillis s =
     (case randomColor s of None \<Rightarrow> None
      | Some s0 \<Rightarrow>
          (case alt_colorBlaster_loop delayMillis s0 of None \<Rightarrow> None
           | Some s' \<Rightarrow> Some (ledsOff s')))"

subsection \<open>Program manager\<close>

text \<open>The hibernation wait \<^verbatim>\<open>while (!remoteState) delay(fastPollMillis)\<close>.\<close>

function hibernate :: "kontroller \<Rightarrow> kontroller option" where
  "hibernate s =
     (case readRemoteState s of None \<Rightarrow> None
      | Some (r, s1) \<Rightarrow>
          if \<not> r then (case delay fastPollMillis s1 of None \<Rightarrow> None
                       | Some s2 \<Rightarrow> hibernate s2)
          else Some s1)"
  by pat_completeness auto
termination
  by (relation "measure (\<lambda>s. length (env s))")
     (auto dest!: readRemoteState_shorter delay_shorter)

declare hibernate.simps [simp del]

text \<open>
  The \<^verbatim>\<open>switch (program)\<close> of \<^verbatim>\<open>loop\<close>. A case that runs a program yields the
  state the program returns; \<open>None\<close> inside \<open>Some\<close> is the \<^verbatim>\<open>default\<close> case, which runs
  nothing. The locals \<^verbatim>\<open>fadeAmount\<close> and \<^verbatim>\<open>delayMillis\<close> of \<^verbatim>\<open>loop\<close> are
  assigned just before each call and passed by value, so the call's arguments stand for them.
\<close>

definition runProgram :: "int \<Rightarrow> kontroller \<Rightarrow> (kontroller option) option" where
  "runProgram program s =
     (if program = 0 then Some (staticColorProgram 25 255 25 s)
      else if program = 1 then Some (fadeLedProgram 5 30 s)
      else if program = 2 then Some (alt_fadeLedProgram 5 30 s)
      else if program = 3 then Some (runningColorsProgram 80 s)
      else if program = 4 then Some (blinkLedProgram 350 s)
      else if program = 5 then Some (colorBlasterProgram 500 s)
      else if program = 6 then Some (alt_colorBlasterProgram 250 s)
      else None)"

text \<open>
  One pass through the body of \<^verbatim>\<open>while (true)\<close>, from the program counter and the
  state at the top of the loop to those at the bottom. \<^verbatim>\<open>debug\<close> is an ordinary
  function with an empty body, so its argument is evaluated: the call
  \<^verbatim>\<open>debug("HIBERNATE: " + String(millis()))\<close> reads the clock once more before the
  hibernation wait. The arguments of the other calls of \<^verbatim>\<open>debug\<close> read variables only.
\<close>

definition loop_body :: "int \<Rightarrow> kontroller \<Rightarrow> (int \<times> kontroller) option" where
  "loop_body program s =
     (case switchOn s of None \<Rightarrow> None
      | Some (on, s1) \<Rightarrow>
          if on then
            (case runProgram program s1 of
               None \<Rightarrow> Some (0, s1)
             | Some None \<Rightarrow> None
             | Some (Some s2) \<Rightarrow> Some (program + 1, s2))
          else
            (case millisSinceLastOff s1 of None \<Rightarrow> None
             | Some (t, s2) \<Rightarrow>
                 if t > 10000 then
                   (case millis s2 of None \<Rightarrow> None
                    | Some (shown, s3) \<Rightarrow>
                        (case hibernate s3 of None \<Rightarrow> None | Some s4 \<Rightarrow> Some (0, s4)))
                 else Some (program, s2)))"

text \<open>\<^verbatim>\<open>loop\<close> never returns; \<open>loop_passes n\<close> is its first \<open>n\<close> passes.\<close>

fun loop_passes :: "nat \<Rightarrow> int \<Rightarrow> kontroller \<Rightarrow> (int \<times> kontroller) option" where
  "loop_passes 0 program s = Some (program, s)"
| "loop_passes (Suc n) program s =
     (case loop_body program s of None \<Rightarrow> None
      | Some (program', s') \<Rightarrow> loop_passes n program' s')"

text \<open>The state at power-up, and \<^verbatim>\<open>loop\<close> entered with \<^verbatim>\<open>program = 0\<close>.\<close>

definition boot :: "obs list \<Rightarrow> kontroller" where
  "boot es = \<lparr>lastOn = 0, lastOff = 0, remoteState = False, out = [], env = es\<rparr>"

definition loop :: "nat \<Rightarrow> obs list \<Rightarrow> (int \<times> kontroller) option" where
  "loop n es = loop_passes n 0 (boot es)"

subsection \<open>Traces for concrete runs\<close>

text \<open>
  \<open>tick t\<close> is an observation at clock value \<open>t\<close> with no interrupt since the last one;
  \<open>sig t level\<close> is one before which the interrupt handler ran and sampled \<open>level\<close>.
\<close>

definition tick :: "ulong \<Rightarrow> obs" where
  "tick t = \<lparr>now = t, edge = None, rand = 0\<rparr>"

definition sig :: "ulong \<Rightarrow> bool \<Rightarrow> obs" where
  "sig t level = \<lparr>now = t, edge = Some level, rand = 0\<rparr>"

text \<open>
  \<open>consumed s pre s'\<close>: the state \<open>s'\<close> is \<open>s\<close> after the observations \<open>pre\<close> were used
  up and nothing but the interrupt handler touched the state.
\<close>

definition consumed :: "kontroller \<Rightarrow> obs list \<Rightarrow> kontroller \<Rightarrow> bool" where
  "consumed s pre s' \<longleftrightarrow>
     env s = pre @ env s' \<and> s' = (fold interrupt pre s)\<lparr>env := env s'\<rparr>"

text \<open>
  \<open>steady n m\<close>: \<open>n\<close> observations, the clock 30 ms further at each; the signal is
  switched on before the first and off before observation \<open>m\<close>.
\<close>

definition steady :: "nat \<Rightarrow> nat \<Rightarrow> obs list" where
  "steady n m =
     map (\<lambda>i. \<lparr>now = 30 * of_nat i,
               edge = (if i = 0 then Some True else if i = m then Some False else None),
               rand = 7 * i\<rparr>) [0..<n]"

text \<open>
  \<open>returned_dark s\<close>: the flag is off and the last three calls of \<^verbatim>\<open>analogWrite\<close> set the
  red, the green and the blue pin to 0, in the order of \<^verbatim>\<open>ledsOff\<close>.
\<close>

definition returned_dark :: "kontroller \<Rightarrow> bool" where
  "returned_dark s \<longleftrightarrow>
     \<not> remoteState s \<and> take 3 (rev (out s)) = [(bLed, 0), (gLed, 0), (rLed, 0)]"

text \<open>
  \<open>wait_run\<close>: the signal comes on and stays on; the clock passes 30 ms after the first
  observation at the fifth.
\<close>

definition wait_run :: "obs list" where
  "wait_run = [sig 7 True, tick 8, tick 20, tick 21, tick 40, tick 41]"

text \<open>
  \<open>elapsed es i\<close>: what \<^verbatim>\<open>millis() - start\<close> evaluates to at observation \<open>i\<close> when
  \<open>start\<close> was read at observation 0, as an integer.
\<close>

definition elapsed :: "obs list \<Rightarrow> nat \<Rightarrow> int" where
  "elapsed es i = uint (now (es ! i) - now (es ! 0))"

text \<open>
  \<open>loop_exit start p s s' pre\<close>: the loop of \<open>belay\<close>, entered in \<open>s\<close>, used up the
  observations \<open>pre\<close> and left in \<open>s'\<close>. Its polls alternate, flag first. It left at a flag
  poll that found the flag off or at a clock poll that found the period reached, and no
  earlier poll did so.
\<close>

definition loop_exit :: "ulong \<Rightarrow> ulong \<Rightarrow> kontroller \<Rightarrow> kontroller \<Rightarrow> obs list \<Rightarrow> bool" where
  "loop_exit start p s s' pre \<longleftrightarrow>
     consumed s pre s' \<and> pre \<noteq> [] \<and>
     (if odd (length pre) then \<not> remoteState s' else p \<le> now (last pre) - start) \<and>
     (\<forall>i < length pre - 1.
        (even i \<longrightarrow> remoteState (fold interrupt (take (Suc i) pre) s)) \<and>
        (odd i \<longrightarrow> \<not> p \<le> now (pre ! i) - start))"

text \<open>
  \<open>belay_returns d s s' obs\<close>: the same for a whole call \<open>belay d\<close>. Observation 0 is the
  read of \<open>start\<close>, the odd ones are flag polls, the even ones clock polls. The call ended
  at a flag poll with the flag off, or at a clock poll at which at least \<open>d\<close> ms had
  elapsed; at every earlier flag poll the flag was on and at every earlier clock poll less
  than \<open>d\<close> ms had elapsed.
\<close>

definition belay_returns :: "int \<Rightarrow> kontroller \<Rightarrow> kontroller \<Rightarrow> obs list \<Rightarrow> bool" where
  "belay_returns d s s' obs \<longleftrightarrow>
     consumed s obs s' \<and> 2 \<le> length obs \<and>
     (if even (length obs) then \<not> remoteState s' else d \<le> elapsed obs (length obs - 1)) \<and>
     (\<forall>i \<in> {1 ..< length obs - 1}.
        (odd i \<longrightarrow> remoteState (fold interrupt (take (Suc i) obs) s)) \<and>
        (even i \<longrightarrow> elapsed obs i < d))"

text \<open>
  \<open>unwrapped s\<close>: the millisecond counter has not wrapped. Read as unsigned numbers, the
  clock values of the remaining observations do not decrease and none lies below a
  timestamp.
\<close>

definition unwrapped :: "kontroller \<Rightarrow> bool" where
  "unwrapped s \<longleftrightarrow>
     list_all (\<lambda>e. lastOn s \<le> now e \<and> lastOff s \<le> now e) (env s) \<and> sorted (map now (env s))"

text \<open>
  \<open>race_run\<close>: two calls of \<open>switchOn\<close>. The signal comes on at 5; at 10 it goes off
  before the second call tests the flag and comes back on before that call returns it.
  \<open>wrap_run\<close>: three calls. On at 100, off at 4294967290, and on again at 6, after the
  counter has wrapped.
\<close>

definition race_run :: "obs list" where
  "race_run = [sig 5 True, tick 5, tick 5, tick 5, tick 5,
               sig 10 False, tick 10, tick 10, tick 10, sig 10 True]"

definition wrap_run :: "obs list" where
  "wrap_run = [sig 100 True, tick 100, tick 100, tick 100, tick 100,
               sig 4294967290 False, tick 4294967290, tick 4294967290, tick 4294967290,
               tick 4294967290,
               sig 6 True, tick 6, tick 6, tick 6, tick 6]"

text \<open>
  What one call of \<open>switchOn\<close> sees. \<open>tested s\<close> is the flag value its condition
  tests, after the interrupt of observation 0, if any. \<open>reading s 1\<close> and \<open>reading s 2\<close> are
  the clock values of its two elapsed-time helpers and \<open>reading s 3\<close> the one it stores, if
  it stores. \<open>lead s\<close> is how far \<open>lastOn\<close> is ahead of \<open>lastOff\<close>, and \<open>advance s\<close>
  how far the clock moves between the two helpers, both as integers.
\<close>

definition tested :: "kontroller \<Rightarrow> bool" where
  "tested s = remoteState (interrupt (env s ! 0) s)"

definition reading :: "kontroller \<Rightarrow> nat \<Rightarrow> ulong" where
  "reading s i = now (env s ! i)"

definition lead :: "kontroller \<Rightarrow> int" where
  "lead s = uint (lastOn s) - uint (lastOff s)"

definition advance :: "kontroller \<Rightarrow> int" where
  "advance s = uint (reading s 2) - uint (reading s 1)"

text \<open>A state with no output so far, for concrete calls.\<close>

definition state_at :: "ulong \<Rightarrow> ulong \<Rightarrow> bool \<Rightarrow> obs list \<Rightarrow> kontroller" where
  "state_at on off flag es =
     \<lparr>lastOn = on, lastOff = off, remoteState = flag, out = [], env = es\<rparr>"

text \<open>
  \<open>tie_run\<close>: four calls of \<open>switchOn\<close>. The signal comes on at 100, goes off at 500
  and is back on within the same millisecond; the fourth call, at 600, follows the third with
  no edge in between.
\<close>

definition tie_run :: "obs list" where
  "tie_run = [sig 100 True, tick 100, tick 100, tick 100, tick 100,
              sig 500 False, tick 500, tick 500, tick 500, tick 500,
              sig 500 True, tick 500, tick 500, tick 500, tick 500,
              tick 600, tick 600, tick 600, tick 600, tick 600]"

text \<open>
  \<open>drift_run\<close>: four calls. On at 3, off at 9, on at 10; the fourth call follows with
  no edge, and the clock moves from 20 to 21 between its two elapsed-time helpers.
  \<open>long_on_run\<close>: two calls. On at 10; the second call follows with no edge after the
  counter has wrapped, at clock value 5.
\<close>

definition drift_run :: "obs list" where
  "drift_run = [sig 3 True, tick 3, tick 3, tick 3, tick 3,
                sig 9 False, tick 9, tick 9, tick 9, tick 9,
                sig 10 True, tick 10, tick 10, tick 10, tick 10,
                tick 20, tick 20, tick 21, tick 21, tick 21]"

definition long_on_run :: "obs list" where
  "long_on_run = [sig 10 True, tick 10, tick 10, tick 10, tick 10,
                  tick 5, tick 5, tick 5, tick 5, tick 5]"

text \<open>
  \<open>idle_run\<close>: the signal stays off from power-up until the clock shows 10201, is then
  on for a while and goes off again at 10300.
\<close>

definition idle_run :: "obs list" where
  "idle_run = replicate 4 (tick 0) @
     [tick 10001, tick 10001, tick 10001, tick 10101, sig 10201 True] @
     replicate 10 (tick 10202) @ [sig 10300 False] @ replicate 5 (tick 10300)"

text \<open>
  The rotation as the specification lists it: Static Color, Sequential Fade, Synchronized
  Fade, Sequential Flash, Blink, Random Color Jump, Random Color Walk, each with the
  arguments \<^verbatim>\<open>loop\<close> passes.
\<close>

definition effect_list :: "(kontroller \<Rightarrow> kontroller option) list" where
  "effect_list = [staticColorProgram 25 255 25, fadeLedProgram 5 30, alt_fadeLedProgram 5 30,
     runningColorsProgram 80, blinkLedProgram 350, colorBlasterProgram 500,
     alt_colorBlasterProgram 250]"

text \<open>
  \<open>off_trace s\<close>: the flag is off and no interrupt of the remaining observations samples
  the pin high, that is, the signal is off and stays off.
\<close>

definition off_trace :: "kontroller \<Rightarrow> bool" where
  "off_trace s \<longleftrightarrow> \<not> remoteState s \<and> list_all (\<lambda>e. edge e \<noteq> Some True) (env s)"

text \<open>
  A signal that takes a level and keeps it for a while. \<open>holds_from lv n r es\<close>: starting
  with the flag at \<open>r\<close>, there is a point in the observations \<open>es\<close> at which the flag has
  the value \<open>lv\<close>, at least \<open>n\<close> observations are left, and no interrupt of the next \<open>n\<close>
  observations samples the other level. \<open>settles n s\<close> says so of the state \<open>s\<close> for the
  level off, \<open>rises n s\<close> for the level on.
\<close>

fun holds_from :: "bool \<Rightarrow> nat \<Rightarrow> bool \<Rightarrow> obs list \<Rightarrow> bool" where
  "holds_from lv n r [] = (r = lv \<and> n = 0)"
| "holds_from lv n r (e # es) =
     ((r = lv \<and> n \<le> Suc (length es) \<and>
       list_all (\<lambda>x. edge x \<noteq> Some (\<not> lv)) (take n (e # es)))
      \<or> holds_from lv n (case edge e of None \<Rightarrow> r | Some l \<Rightarrow> l) es)"

definition settles :: "nat \<Rightarrow> kontroller \<Rightarrow> bool" where
  "settles n s = holds_from False n (remoteState s) (env s)"

definition rises :: "nat \<Rightarrow> kontroller \<Rightarrow> bool" where
  "rises n s = holds_from True n (remoteState s) (env s)"

text \<open>
  For the proofs: \<open>turns lv n s\<close> is \<open>settles\<close> or \<open>rises\<close> with the level as an argument,
  \<open>steadily lv m s\<close> says that the flag has the level now and keeps it for the next \<open>m\<close>
  observations, and \<open>winding lv n m s\<close> that the level is still to be taken for \<open>n\<close>
  observations or is held now for \<open>m\<close> more.
\<close>

definition turns :: "bool \<Rightarrow> nat \<Rightarrow> kontroller \<Rightarrow> bool" where
  "turns lv n s = holds_from lv n (remoteState s) (env s)"

definition steadily :: "bool \<Rightarrow> nat \<Rightarrow> kontroller \<Rightarrow> bool" where
  "steadily lv m s \<longleftrightarrow> remoteState s = lv \<and> m \<le> length (env s) \<and>
     list_all (\<lambda>x. edge x \<noteq> Some (\<not> lv)) (take m (env s))"

definition winding :: "bool \<Rightarrow> nat \<Rightarrow> nat \<Rightarrow> kontroller \<Rightarrow> bool" where
  "winding lv n m s \<longleftrightarrow> turns lv n s \<or> steadily lv m s"


section \<open>Properties\<close>

subsection \<open>Running the sketch on a trace whose first observations are named\<close>

lemma interrupt_upd:
  "interrupt e (s\<lparr>env := x\<rparr>) = (interrupt e s)\<lparr>env := x\<rparr>"
  "interrupt e (s\<lparr>lastOn := t\<rparr>) = (interrupt e s)\<lparr>lastOn := t\<rparr>"
  "interrupt e (s\<lparr>lastOff := t\<rparr>) = (interrupt e s)\<lparr>lastOff := t\<rparr>"
  "interrupt e (s\<lparr>out := w\<rparr>) = (interrupt e s)\<lparr>out := w\<rparr>"
  by (simp_all add: interrupt_def updateState_def split: option.splits)

lemma interrupt_sel:
  "remoteState (interrupt e s) = (case edge e of None \<Rightarrow> remoteState s | Some l \<Rightarrow> l)"
  "env (interrupt e s) = env s"
  by (simp_all add: interrupt_def updateState_def split: option.splits)

lemma interrupt_off:
  "edge e \<noteq> Some True \<Longrightarrow> \<not> remoteState s \<Longrightarrow> remoteState (interrupt e s) = False"
  by (cases "edge e") (simp_all add: interrupt_def updateState_def)

lemma observe_upd: "observe (s\<lparr>env := e # es\<rparr>) = Some (e, (interrupt e s)\<lparr>env := es\<rparr>)"
  by (simp add: observe_def interrupt_upd)

lemma env_last:
  "s\<lparr>env := x, lastOn := t\<rparr> = s\<lparr>lastOn := t, env := x\<rparr>"
  "s\<lparr>env := x, lastOff := t\<rparr> = s\<lparr>lastOff := t, env := x\<rparr>"
  "s\<lparr>env := x, out := w\<rparr> = s\<lparr>out := w, env := x\<rparr>"
  "setLed led b (s\<lparr>env := x\<rparr>) = (setLed led b s)\<lparr>env := x\<rparr>"
  by (simp_all add: setLed_def)

lemma setLed_sel [simp]:
  "remoteState (setLed led b s) = remoteState s" "lastOn (setLed led b s) = lastOn s"
  "lastOff (setLed led b s) = lastOff s" "out (setLed led b s) = out s @ [(led, b)]"
  by (simp_all add: setLed_def)

lemma five: "5 \<le> length xs \<Longrightarrow> \<exists>a b c d e r. xs = a # b # c # d # e # r"
  by (auto simp: numeral_eq_Suc Suc_le_length_iff)

lemma eight: "8 \<le> length xs \<Longrightarrow> \<exists>a b c r. xs = a # b # c # r \<and> 5 \<le> length r"
  by (auto simp: numeral_eq_Suc Suc_le_length_iff)

subsection \<open>The interruptible wait only watches\<close>

lemma interrupt_env: "interrupt e (s\<lparr>env := x\<rparr>) = (interrupt e s)\<lparr>env := x\<rparr>"
  by (simp add: interrupt_def updateState_def split: option.splits)

lemma fold_interrupt_env:
  "fold interrupt pre (s\<lparr>env := x\<rparr>) = (fold interrupt pre s)\<lparr>env := x\<rparr>"
  by (induction pre arbitrary: s) (simp_all add: interrupt_env)

lemma interrupt_keeps [simp]:
  "lastOn (interrupt e s) = lastOn s" "lastOff (interrupt e s) = lastOff s"
  "out (interrupt e s) = out s"
  by (simp_all add: interrupt_def updateState_def split: option.splits)

lemma fold_interrupt_keeps [simp]:
  "lastOn (fold interrupt pre s) = lastOn s" "lastOff (fold interrupt pre s) = lastOff s"
  "out (fold interrupt pre s) = out s"
  by (induction pre arbitrary: s) simp_all

lemma observe_consumed: "observe s = Some (e, s') \<Longrightarrow> consumed s [e] s'"
  by (auto simp: observe_def consumed_def split: list.splits)

lemma consumed_trans:
  assumes "consumed s p s1" and "consumed s1 q s2"
  shows "consumed s (p @ q) s2"
proof -
  have e: "env s = p @ env s1" "env s1 = q @ env s2"
    using assms by (simp_all add: consumed_def)
  have "s2 = (fold interrupt q s1)\<lparr>env := env s2\<rparr>"
    using assms(2) by (simp add: consumed_def)
  also have "s1 = (fold interrupt p s)\<lparr>env := env s1\<rparr>"
    using assms(1) by (simp add: consumed_def)
  finally have "s2 = (fold interrupt (p @ q) s)\<lparr>env := env s2\<rparr>"
    by (simp add: fold_interrupt_env)
  with e show ?thesis by (simp add: consumed_def)
qed

lemma millis_consumed: "millis s = Some (t, s') \<Longrightarrow> \<exists>e. consumed s [e] s' \<and> t = now e"
  by (auto simp: millis_def split: option.splits dest: observe_consumed)

lemma readRemoteState_consumed:
  "readRemoteState s = Some (r, s') \<Longrightarrow> \<exists>e. consumed s [e] s' \<and> r = remoteState s'"
  by (auto simp: readRemoteState_def split: option.splits dest: observe_consumed)

lemma belay_loop_consumed:
  "belay_loop start period s = Some s' \<Longrightarrow> \<exists>pre. consumed s pre s'"
proof (induction start period s rule: belay_loop.induct)
  case (1 start period s)
  from "1.prems" obtain r s1 where r: "readRemoteState s = Some (r, s1)"
    by (subst (asm) belay_loop.simps) (auto split: option.splits)
  then obtain e1 where e1: "consumed s [e1] s1" by (auto dest: readRemoteState_consumed)
  show ?case
  proof (cases r)
    case False
    with r "1.prems" have "s' = s1" by (subst (asm) belay_loop.simps) simp
    with e1 show ?thesis by blast
  next
    case True
    with r "1.prems" obtain t s2 where m: "millis s1 = Some (t, s2)"
      by (subst (asm) belay_loop.simps) (auto split: option.splits)
    then obtain e2 where e2: "consumed s1 [e2] s2" by (auto dest: millis_consumed)
    show ?thesis
    proof (cases "period \<le> t - start")
      case True
      with r m \<open>r\<close> "1.prems" have "s' = s2" by (subst (asm) belay_loop.simps) simp
      with consumed_trans [OF e1 e2] show ?thesis by blast
    next
      case False
      with r m \<open>r\<close> "1.prems" have "belay_loop start period s2 = Some s'"
        by (subst (asm) belay_loop.simps) simp
      with "1.IH" [OF r refl _ m refl False] \<open>r\<close>
      obtain pre where "consumed s2 pre s'" by auto
      with consumed_trans [OF consumed_trans [OF e1 e2]] show ?thesis by blast
    qed
  qed
qed

lemma belay_consumed: "belay period s = Some s' \<Longrightarrow> \<exists>pre. consumed s pre s'"
proof -
  assume b: "belay period s = Some s'"
  then obtain start s1 where m: "millis s = Some (start, s1)"
    and l: "belay_loop start (word_of_int period) s1 = Some s'"
    by (auto simp: belay_def split: option.splits)
  from m obtain e where "consumed s [e] s1" by (auto dest: millis_consumed)
  moreover from l obtain pre where "consumed s1 pre s'" by (auto dest: belay_loop_consumed)
  ultimately show ?thesis by (blast intro: consumed_trans)
qed

text \<open>
  C7. A call of \<open>belay\<close> writes neither timestamp, and the flag \<open>remoteState\<close> it returns
  with is the one the interrupt handler alone produced from the observations the call used
  up: the state at return is the state at entry with only the interrupt handler applied.
\<close>

theorem belay_read_only:
  "belay period s = Some s' \<Longrightarrow>
     lastOn s' = lastOn s \<and> lastOff s' = lastOff s \<and> out s' = out s \<and>
     (\<exists>pre. env s = pre @ env s' \<and> s' = (fold interrupt pre s)\<lparr>env := env s'\<rparr>)"
proof -
  assume "belay period s = Some s'"
  then obtain pre where c: "consumed s pre s'" by (auto dest: belay_consumed)
  then have s': "s' = (fold interrupt pre s)\<lparr>env := env s'\<rparr>" and e: "env s = pre @ env s'"
    by (simp_all add: consumed_def)
  have "lastOn s' = lastOn s"
    by (subst s') simp
  moreover have "lastOff s' = lastOff s"
    by (subst s') simp
  moreover have "out s' = out s"
    by (subst s') simp
  ultimately show ?thesis using s' e by blast
qed

theorem belay_read_only_witness:
  "belay 30 (boot [sig 7 True, tick 8, tick 40]) = Some ((boot [])\<lparr>remoteState := True\<rparr>)
   \<and> lastOn ((boot [])\<lparr>remoteState := True\<rparr>) = lastOn (boot [sig 7 True, tick 8, tick 40])
   \<and> lastOff ((boot [])\<lparr>remoteState := True\<rparr>) = lastOff (boot [sig 7 True, tick 8, tick 40])"
proof -
  have h: "belay 30 (boot [sig 7 True, tick 8, tick 40])
           = Some ((boot [])\<lparr>remoteState := True\<rparr>)"
    by code_simp
  from belay_read_only [OF h] h show ?thesis by simp
qed

subsection \<open>Every effect program ends with the channels at 0\<close>

lemma readRemoteState_flag: "readRemoteState s = Some (r, s') \<Longrightarrow> remoteState s' = r"
  by (auto simp: readRemoteState_def split: option.splits)

lemma switchOn_flag: "switchOn s = Some (r, s') \<Longrightarrow> remoteState s' = r"
  unfolding switchOn_def
  by (auto split: Option.bind_splits dest: readRemoteState_flag)

lemma ledsOff_dark: "\<not> remoteState s \<Longrightarrow> returned_dark (ledsOff s)"
  by (simp add: returned_dark_def ledsOff_def setLed_def)

lemma staticColor_loop_off: "staticColor_loop s = Some s' \<Longrightarrow> \<not> remoteState s'"
  apply (induction s rule: staticColor_loop.induct)
  apply (subst (asm) (2) staticColor_loop.simps)
  apply (auto split: option.splits if_splits dest!: switchOn_flag)
  apply blast+
  done

lemma fade_outer_off: "fade_outer d f s = Some s' \<Longrightarrow> \<not> remoteState s'"
  apply (induction d f s rule: fade_outer.induct)
  apply (subst (asm) (2) fade_outer.simps)
  apply (auto split: option.splits if_splits dest!: switchOn_flag)
  apply blast+
  done

lemma alt_fade_loop_off: "alt_fade_loop d b f s = Some s' \<Longrightarrow> \<not> remoteState s'"
  apply (induction d b f s rule: alt_fade_loop.induct)
  apply (subst (asm) (2) alt_fade_loop.simps)
  apply (auto simp: Let_def split: option.splits if_splits dest!: switchOn_flag)
  apply blast+
  done

lemma running_loop_off: "running_loop d s = Some s' \<Longrightarrow> \<not> remoteState s'"
  apply (induction d s rule: running_loop.induct)
  apply (subst (asm) (2) running_loop.simps)
  apply (auto split: option.splits if_splits dest!: switchOn_flag)
  apply blast+
  done

lemma blink_loop_off: "blink_loop d s = Some s' \<Longrightarrow> \<not> remoteState s'"
  apply (induction d s rule: blink_loop.induct)
  apply (subst (asm) (2) blink_loop.simps)
  apply (auto split: option.splits if_splits dest!: switchOn_flag)
  apply blast+
  done

lemma colorBlaster_loop_off: "colorBlaster_loop d s = Some s' \<Longrightarrow> \<not> remoteState s'"
  apply (induction d s rule: colorBlaster_loop.induct)
  apply (subst (asm) (2) colorBlaster_loop.simps)
  apply (auto split: option.splits if_splits dest!: switchOn_flag)
  apply blast+
  done

lemma alt_colorBlaster_loop_off:
  "alt_colorBlaster_loop d s = Some s' \<Longrightarrow> \<not> remoteState s'"
  apply (induction d s rule: alt_colorBlaster_loop.induct)
  apply (subst (asm) (2) alt_colorBlaster_loop.simps)
  apply (auto split: option.splits if_splits dest!: switchOn_flag)
  apply blast+
  done

lemma effects_return_dark:
  "(staticColorProgram r g b s = Some s' \<longrightarrow> returned_dark s') \<and>
   (fadeLedProgram fadeAmount delayMillis s = Some s' \<longrightarrow> returned_dark s') \<and>
   (alt_fadeLedProgram fadeAmount delayMillis s = Some s' \<longrightarrow> returned_dark s') \<and>
   (runningColorsProgram delayMillis s = Some s' \<longrightarrow> returned_dark s') \<and>
   (blinkLedProgram delayMillis s = Some s' \<longrightarrow> returned_dark s') \<and>
   (colorBlasterProgram delayMillis s = Some s' \<longrightarrow> returned_dark s') \<and>
   (alt_colorBlasterProgram delayMillis s = Some s' \<longrightarrow> returned_dark s')"
proof (intro conjI impI)
  show "returned_dark s'" if "staticColorProgram r g b s = Some s'"
    using that
    by (auto simp: staticColorProgram_def split: option.splits
             dest!: staticColor_loop_off intro: ledsOff_dark)
  show "returned_dark s'" if "fadeLedProgram fadeAmount delayMillis s = Some s'"
    using that
    by (auto simp: fadeLedProgram_def split: option.splits
             dest!: fade_outer_off intro: ledsOff_dark)
  show "returned_dark s'" if "alt_fadeLedProgram fadeAmount delayMillis s = Some s'"
    using that
    by (auto simp: alt_fadeLedProgram_def split: option.splits
             dest!: alt_fade_loop_off intro: ledsOff_dark)
  show "returned_dark s'" if "runningColorsProgram delayMillis s = Some s'"
    using that
    by (auto simp: runningColorsProgram_def split: option.splits
             dest!: running_loop_off intro: ledsOff_dark)
  show "returned_dark s'" if "blinkLedProgram delayMillis s = Some s'"
    using that
    by (auto simp: blinkLedProgram_def split: option.splits
             dest!: blink_loop_off intro: ledsOff_dark)
  show "returned_dark s'" if "colorBlasterProgram delayMillis s = Some s'"
    using that
    by (auto simp: colorBlasterProgram_def split: option.splits
             dest!: colorBlaster_loop_off intro: ledsOff_dark)
  show "returned_dark s'" if "alt_colorBlasterProgram delayMillis s = Some s'"
    using that
    by (auto simp: alt_colorBlasterProgram_def split: option.splits
             dest!: alt_colorBlaster_loop_off intro: ledsOff_dark)
qed

subsection \<open>Entered with the signal off\<close>

lemmas exec = switchOn_def millisSinceLastOff_def millisSinceLastOn_def millis_def
  readRemoteState_def observe_upd interrupt_upd interrupt_keeps interrupt_sel env_last

lemma switchOn_total: "5 \<le> length (env s) \<Longrightarrow> switchOn s \<noteq> None"
proof -
  assume "5 \<le> length (env s)"
  then obtain a b c d e r where "env s = a # b # c # d # e # r" by (auto dest: five)
  then have s: "s = s\<lparr>env := a # b # c # d # e # r\<rparr>" by simp
  show ?thesis
    by (subst s) (simp add: exec)
qed


lemma switchOn_off:
  assumes "off_trace s" and "5 \<le> length (env s)"
  shows "map_option (\<lambda>(r, s'). (r, out s')) (switchOn s) = Some (False, out s)"
proof -
  from assms(2) obtain a b c d e r where env: "env s = a # b # c # d # e # r" by (auto dest: five)
  then have s: "s = s\<lparr>env := a # b # c # d # e # r\<rparr>" by simp
  from assms(1) env have q: "\<not> remoteState s" "edge a \<noteq> Some True" "edge b \<noteq> Some True"
    "edge c \<noteq> Some True" "edge d \<noteq> Some True" "edge e \<noteq> Some True"
    by (simp_all add: off_trace_def)
  show ?thesis
    by (subst s) (auto simp: switchOn_def millisSinceLastOff_def millisSinceLastOn_def millis_def
      readRemoteState_def observe_upd interrupt_upd interrupt_keeps env_last interrupt_off q)
qed

lemma off_trace_setLed [simp]: "off_trace (setLed led b s) = off_trace s"
  by (simp add: off_trace_def setLed_def)

lemma switchOn_off_ex:
  assumes "off_trace s" and "5 \<le> length (env s)"
  shows "\<exists>s'. switchOn s = Some (False, s') \<and> out s' = out s"
  using switchOn_off [OF assms] by auto

lemma staticColor_entry_off:
  assumes "off_trace s" and "5 \<le> length (env s)"
  shows "\<exists>s'. staticColorProgram r g b s = Some s' \<and>
           out s' = out s @ [(rLed, r), (gLed, g), (bLed, b), (rLed, 0), (gLed, 0), (bLed, 0)]"
proof -
  define s0 where "s0 = setLed bLed b (setLed gLed g (setLed rLed r s))"
  have "off_trace s0" "5 \<le> length (env s0)" using assms by (simp_all add: s0_def)
  then obtain s1 where sw: "switchOn s0 = Some (False, s1)" and o: "out s1 = out s0"
    using switchOn_off_ex by blast
  have "staticColor_loop s0 = Some s1"
    by (subst staticColor_loop.simps) (simp add: sw)
  then have "staticColorProgram r g b s = Some (ledsOff s1)"
    by (simp add: staticColorProgram_def s0_def)
  moreover have "out (ledsOff s1) =
      out s @ [(rLed, r), (gLed, g), (bLed, b), (rLed, 0), (gLed, 0), (bLed, 0)]"
    by (simp add: ledsOff_def setLed_def o s0_def)
  ultimately show ?thesis by blast
qed

lemma randomColor_off:
  assumes "off_trace s" and "8 \<le> length (env s)"
  shows "\<exists>s0 x y z. randomColor s = Some s0 \<and> off_trace s0 \<and> 5 \<le> length (env s0) \<and>
           1 \<le> x \<and> x \<le> 255 \<and> 1 \<le> y \<and> y \<le> 255 \<and> 1 \<le> z \<and> z \<le> 255 \<and>
           out s0 = out s @ [(rLed, x), (gLed, y), (bLed, z)]"
proof -
  from assms(2) obtain a b c r where env: "env s = a # b # c # r" and r: "5 \<le> length r"
    by (auto dest: eight)
  then have s: "s = s\<lparr>env := a # b # c # r\<rparr>" by simp
  from assms(1) env have q: "\<not> remoteState s" "edge a \<noteq> Some True" "edge b \<noteq> Some True"
    "edge c \<noteq> Some True" "list_all (\<lambda>e. edge e \<noteq> Some True) r"
    by (simp_all add: off_trace_def)
  define s0 where "s0 = setLed bLed (int (rand c) mod 255 + 1)
     (interrupt c (setLed gLed (int (rand b) mod 255 + 1)
        (interrupt b (setLed rLed (int (rand a) mod 255 + 1) (interrupt a s)))))\<lparr>env := r\<rparr>"
  have "randomColor s = Some s0"
    by (subst s) (simp add: randomColor_def random2_def observe_upd interrupt_upd env_last s0_def)
  moreover have "off_trace s0"
    by (simp add: s0_def off_trace_def q interrupt_off)
  moreover have "5 \<le> length (env s0)" by (simp add: s0_def r)
  moreover have "out s0 = out s @ [(rLed, int (rand a) mod 255 + 1),
     (gLed, int (rand b) mod 255 + 1), (bLed, int (rand c) mod 255 + 1)]"
    by (simp add: s0_def)
  moreover have "1 \<le> int (rand e) mod 255 + 1 \<and> int (rand e) mod 255 + 1 \<le> 255" for e :: obs
    by (simp add: zle_add1_eq_le)
  ultimately show ?thesis by blast
qed

lemma alt_colorBlaster_entry_off:
  assumes "off_trace s" and "8 \<le> length (env s)"
  shows "\<exists>s' x y z. alt_colorBlasterProgram d s = Some s' \<and>
           1 \<le> x \<and> x \<le> 255 \<and> 1 \<le> y \<and> y \<le> 255 \<and> 1 \<le> z \<and> z \<le> 255 \<and>
           out s' = out s @ [(rLed, x), (gLed, y), (bLed, z), (rLed, 0), (gLed, 0), (bLed, 0)]"
proof -
  from randomColor_off [OF assms] obtain s0 x y z where rc: "randomColor s = Some s0"
    and o: "off_trace s0" "5 \<le> length (env s0)"
    and b: "1 \<le> x" "x \<le> 255" "1 \<le> y" "y \<le> 255" "1 \<le> z" "z \<le> 255"
    and out: "out s0 = out s @ [(rLed, x), (gLed, y), (bLed, z)]" by blast
  from o obtain s1 where sw: "switchOn s0 = Some (False, s1)" and o1: "out s1 = out s0"
    using switchOn_off_ex by blast
  have "alt_colorBlaster_loop d s0 = Some s1"
    by (subst alt_colorBlaster_loop.simps) (simp add: sw)
  then have "alt_colorBlasterProgram d s = Some (ledsOff s1)"
    by (simp add: alt_colorBlasterProgram_def rc)
  moreover have "out (ledsOff s1) =
      out s @ [(rLed, x), (gLed, y), (bLed, z), (rLed, 0), (gLed, 0), (bLed, 0)]"
    by (simp add: ledsOff_def setLed_def o1 out)
  ultimately show ?thesis using b by blast
qed

text \<open>
  C9. \<open>staticColorProgram\<close> and \<open>alt_colorBlasterProgram\<close> write their first frame before
  they look at the signal. Entered with the signal off and staying off, each returns, and
  what it wrote is exactly that one frame (the given triple, respectively three random
  intensities from 1 to 255) followed by the three zeros of \<open>ledsOff\<close>.
\<close>

theorem first_frame_before_signal_check:
  assumes "off_trace s" and "8 \<le> length (env s)"
  shows "(\<exists>s'. staticColorProgram r g b s = Some s' \<and>
            out s' = out s @ [(rLed, r), (gLed, g), (bLed, b), (rLed, 0), (gLed, 0), (bLed, 0)])
       \<and> (\<exists>s' x y z. alt_colorBlasterProgram d s = Some s' \<and>
            1 \<le> x \<and> x \<le> 255 \<and> 1 \<le> y \<and> y \<le> 255 \<and> 1 \<le> z \<and> z \<le> 255 \<and>
            out s' = out s @ [(rLed, x), (gLed, y), (bLed, z), (rLed, 0), (gLed, 0), (bLed, 0)])"
proof -
  from assms(2) have "5 \<le> length (env s)" by simp
  from staticColor_entry_off [OF assms(1) this] alt_colorBlaster_entry_off [OF assms]
  show ?thesis by blast
qed

theorem first_frame_before_signal_check_witness:
  "off_trace (boot (replicate 8 (tick 3))) \<and> 8 \<le> length (env (boot (replicate 8 (tick 3)))) \<and>
   (\<exists>s'. staticColorProgram 25 255 25 (boot (replicate 8 (tick 3))) = Some s' \<and>
      out s' = [(rLed, 25), (gLed, 255), (bLed, 25), (rLed, 0), (gLed, 0), (bLed, 0)]) \<and>
   (\<exists>s' x y z. alt_colorBlasterProgram 250 (boot (replicate 8 (tick 3))) = Some s' \<and>
      1 \<le> x \<and> x \<le> 255 \<and> 1 \<le> y \<and> y \<le> 255 \<and> 1 \<le> z \<and> z \<le> 255 \<and>
      out s' = [(rLed, x), (gLed, y), (bLed, z), (rLed, 0), (gLed, 0), (bLed, 0)])"
proof -
  have 1: "off_trace (boot (replicate 8 (tick 3)))" by code_simp
  have 2: "8 \<le> length (env (boot (replicate 8 (tick 3))))" by (simp add: boot_def)
  have 3: "out (boot (replicate 8 (tick 3))) = []" by (simp add: boot_def)
  from first_frame_before_signal_check [OF 1 2, of 25 255 25 250] 1 2 3 show ?thesis by simp
qed

subsection \<open>The program manager\<close>

lemma observe_out: "observe s = Some (e, s') \<Longrightarrow> out s' = out s"
  by (auto simp: observe_def split: list.splits)

lemma millis_out: "millis s = Some (t, s') \<Longrightarrow> out s' = out s"
  by (auto simp: millis_def split: option.splits dest: observe_out)

lemma readRemoteState_out: "readRemoteState s = Some (r, s') \<Longrightarrow> out s' = out s"
  by (auto simp: readRemoteState_def split: option.splits dest: observe_out)

lemma delay_out: "delay ms s = Some s' \<Longrightarrow> out s' = out s"
  by (auto simp: delay_def split: option.splits dest: observe_out)

lemma switchOn_out: "switchOn s = Some (r, s') \<Longrightarrow> out s' = out s"
  unfolding switchOn_def millisSinceLastOff_def millisSinceLastOn_def
  by (auto split: Option.bind_splits if_splits option.splits
      dest!: readRemoteState_out millis_out)

lemma runProgram_effect:
  "0 \<le> program \<Longrightarrow> program < 7 \<Longrightarrow> runProgram program s = Some ((effect_list ! nat program) s)"
proof -
  assume "0 \<le> program" "program < 7"
  then consider "program = 0" | "program = 1" | "program = 2" | "program = 3" | "program = 4"
    | "program = 5" | "program = 6" by arith
  then show ?thesis
    by cases (simp_all add: runProgram_def effect_list_def)
qed

lemma runProgram_default: "program < 0 \<or> 7 \<le> program \<Longrightarrow> runProgram program s = None"
  by (auto simp: runProgram_def)

text \<open>
  C4. In a pass that finds the signal on, a counter value from 0 to 6 runs the entry of
  the effect list at that index and, once the effect has returned, leaves the counter one
  higher. Any other value runs nothing, writes nothing and leaves the counter at 0 without
  incrementing it; the \<^verbatim>\<open>continue\<close> leads straight to the next poll, and if that still
  finds the signal on, Static Color runs in the same on-period and the counter becomes 1.
\<close>

theorem rotation_order_and_wrap:
  assumes "switchOn s = Some (True, s1)"
  shows "(0 \<le> program \<and> program < 7 \<longrightarrow>
           loop_body program s =
             (case (effect_list ! nat program) s1 of None \<Rightarrow> None
              | Some s2 \<Rightarrow> Some (program + 1, s2)))
       \<and> (program < 0 \<or> 7 \<le> program \<longrightarrow>
           loop_body program s = Some (0, s1) \<and> out s1 = out s \<and>
           (switchOn s1 = Some (True, s2) \<longrightarrow>
              loop_passes 2 program s =
                (case staticColorProgram 25 255 25 s2 of None \<Rightarrow> None
                 | Some s3 \<Rightarrow> Some (1, s3))))"
proof (intro conjI impI)
  assume "0 \<le> program \<and> program < 7"
  then show "loop_body program s =
             (case (effect_list ! nat program) s1 of None \<Rightarrow> None
              | Some s2 \<Rightarrow> Some (program + 1, s2))"
    by (simp add: loop_body_def assms runProgram_effect split: option.splits)
next
  assume d: "program < 0 \<or> 7 \<le> program"
  then show b: "loop_body program s = Some (0, s1)"
    by (simp add: loop_body_def assms runProgram_default)
  show "out s1 = out s" using assms by (rule switchOn_out)
  assume "switchOn s1 = Some (True, s2)"
  then have "loop_body 0 s1 = (case staticColorProgram 25 255 25 s2 of None \<Rightarrow> None
                 | Some s3 \<Rightarrow> Some (1, s3))"
    by (simp add: loop_body_def runProgram_def split: option.splits)
  with b show "loop_passes 2 program s =
                (case staticColorProgram 25 255 25 s2 of None \<Rightarrow> None
                 | Some s3 \<Rightarrow> Some (1, s3))"
    by (simp add: numeral_2_eq_2 split: option.splits)
qed

theorem rotation_order_and_wrap_witness:
  "switchOn (boot (steady 30 16))
     = Some (True, \<lparr>lastOn = 90, lastOff = 0, remoteState = True, out = [],
                    env = drop 5 (steady 30 16)\<rparr>)
   \<and> loop_body 3 (boot (steady 30 16))
     = (case runningColorsProgram 80 \<lparr>lastOn = 90, lastOff = 0, remoteState = True, out = [],
                    env = drop 5 (steady 30 16)\<rparr> of
          None \<Rightarrow> None | Some s2 \<Rightarrow> Some (4, s2))
   \<and> loop_body 7 (boot (steady 30 16))
     = Some (0, \<lparr>lastOn = 90, lastOff = 0, remoteState = True, out = [],
                 env = drop 5 (steady 30 16)\<rparr>)
   \<and> loop_passes 2 7 (boot (steady 30 16))
     = Some (1, \<lparr>lastOn = 90, lastOff = 0, remoteState = False,
                 out = [(9, 25), (10, 255), (11, 25), (9, 0), (10, 0), (11, 0)],
                 env = drop 18 (steady 30 16)\<rparr>)"
proof -
  let ?s1 = "\<lparr>lastOn = 90, lastOff = 0, remoteState = True, out = [],
              env = drop 5 (steady 30 16)\<rparr>"
  let ?s2 = "\<lparr>lastOn = 90, lastOff = 0, remoteState = True, out = [],
              env = drop 9 (steady 30 16)\<rparr>"
  have 1: "switchOn (boot (steady 30 16)) = Some (True, ?s1)" by code_simp
  have 2: "switchOn ?s1 = Some (True, ?s2)" by code_simp
  have 3: "staticColorProgram 25 255 25 ?s2
     = Some \<lparr>lastOn = 90, lastOff = 0, remoteState = False,
              out = [(9, 25), (10, 255), (11, 25), (9, 0), (10, 0), (11, 0)],
              env = drop 18 (steady 30 16)\<rparr>" by code_simp
  have 4: "effect_list ! nat 3 = runningColorsProgram 80" by (simp add: effect_list_def)
  from rotation_order_and_wrap [OF 1, of 3] 4
  have a: "loop_body 3 (boot (steady 30 16))
     = (case runningColorsProgram 80 ?s1 of None \<Rightarrow> None | Some s2 \<Rightarrow> Some (4, s2))"
    by (simp cong: option.case_cong)
  from rotation_order_and_wrap [OF 1, of 7 ?s2] 2 3
  have b: "loop_body 7 (boot (steady 30 16)) = Some (0, ?s1)"
    and c: "loop_passes 2 7 (boot (steady 30 16))
     = Some (1, \<lparr>lastOn = 90, lastOff = 0, remoteState = False,
                 out = [(9, 25), (10, 255), (11, 25), (9, 0), (10, 0), (11, 0)],
                 env = drop 18 (steady 30 16)\<rparr>)"
    by simp_all
  from 1 a b c show ?thesis by simp
qed

lemma hibernate_wakes: "hibernate s = Some s' \<Longrightarrow> remoteState s' \<and> out s' = out s"
proof (induction s rule: hibernate.induct)
  case (1 s)
  from "1.prems" obtain r s1 where r: "readRemoteState s = Some (r, s1)"
    by (subst (asm) hibernate.simps) (auto split: option.splits)
  show ?case
  proof (cases r)
    case True
    with r "1.prems" have "s' = s1" by (subst (asm) hibernate.simps) simp
    with r True show ?thesis by (auto dest: readRemoteState_flag readRemoteState_out)
  next
    case False
    with r "1.prems" obtain s2 where d: "delay fastPollMillis s1 = Some s2"
      and h: "hibernate s2 = Some s'"
      by (subst (asm) hibernate.simps) (auto split: option.splits)
    from "1.IH" [OF r refl _ d h] False have "remoteState s' \<and> out s' = out s2" by simp
    with readRemoteState_out [OF r] delay_out [OF d] show ?thesis by simp
  qed
qed

subsection \<open>What the interruptible wait waits for\<close>

lemma consumed_flag: "consumed s pre s' \<Longrightarrow> remoteState s' = remoteState (fold interrupt pre s)"
  by (metis consumed_def kontroller.select_convs(3) kontroller.surjective kontroller.update_convs(5))

lemma fold_interrupt_consumed:
  "consumed s pre s1 \<Longrightarrow>
     remoteState (fold interrupt xs s1) = remoteState (fold interrupt (pre @ xs) s)"
proof -
  assume "consumed s pre s1"
  then have "s1 = (fold interrupt pre s)\<lparr>env := env s1\<rparr>" by (simp add: consumed_def)
  then have "fold interrupt xs s1 = (fold interrupt xs (fold interrupt pre s))\<lparr>env := env s1\<rparr>"
    by (metis fold_interrupt_env)
  then show ?thesis by simp
qed

lemma belay_loop_exit:
  "belay_loop start p s = Some s' \<Longrightarrow> \<exists>pre. loop_exit start p s s' pre"
proof (induction start p s rule: belay_loop.induct)
  case (1 start p s)
  from "1.prems" obtain r s1 where r: "readRemoteState s = Some (r, s1)"
    by (subst (asm) belay_loop.simps) (auto split: option.splits)
  then obtain e0 where e0: "consumed s [e0] s1" "r = remoteState s1"
    by (auto dest: readRemoteState_consumed)
  show ?case
  proof (cases r)
    case False
    with r "1.prems" have "s' = s1" by (subst (asm) belay_loop.simps) simp
    with e0 False have "loop_exit start p s s' [e0]"
      by (simp add: loop_exit_def)
    then show ?thesis ..
  next
    case True
    with r "1.prems" obtain t s2 where m: "millis s1 = Some (t, s2)"
      by (subst (asm) belay_loop.simps) (auto split: option.splits)
    then obtain e1 where e1: "consumed s1 [e1] s2" "t = now e1" by (auto dest: millis_consumed)
    have c2: "consumed s [e0, e1] s2" using consumed_trans [OF e0(1) e1(1)] by simp
    have f0: "remoteState (fold interrupt [e0] s)"
      using consumed_flag [OF e0(1)] e0(2) True by simp
    show ?thesis
    proof (cases "p \<le> t - start")
      case True
      with r m \<open>r\<close> "1.prems" have "s' = s2" by (subst (asm) belay_loop.simps) simp
      with c2 True e1(2) f0 have "loop_exit start p s s' [e0, e1]"
        by (simp add: loop_exit_def)
      then show ?thesis ..
    next
      case False
      with r m \<open>r\<close> "1.prems" have "belay_loop start p s2 = Some s'"
        by (subst (asm) belay_loop.simps) simp
      with "1.IH" [OF r refl _ m refl False] \<open>r\<close>
      obtain pre where pre: "loop_exit start p s2 s' pre" by auto
      then have c: "consumed s2 pre s'" and ne: "pre \<noteq> []"
        and ex: "if odd (length pre) then \<not> remoteState s' else p \<le> now (last pre) - start"
        and ea: "\<And>i. i < length pre - 1 \<Longrightarrow>
          (even i \<longrightarrow> remoteState (fold interrupt (take (Suc i) pre) s2)) \<and>
          (odd i \<longrightarrow> \<not> p \<le> now (pre ! i) - start)"
        by (simp_all add: loop_exit_def)
      have "consumed s (e0 # e1 # pre) s'" using consumed_trans [OF c2 c] by simp
      moreover have "(even i \<longrightarrow> remoteState (fold interrupt (take (Suc i) (e0 # e1 # pre)) s)) \<and>
          (odd i \<longrightarrow> \<not> p \<le> now ((e0 # e1 # pre) ! i) - start)"
        if i: "i < length (e0 # e1 # pre) - 1" for i
      proof (cases i)
        case 0
        with f0 show ?thesis by simp
      next
        case (Suc j)
        show ?thesis
        proof (cases j)
          case 0
          with Suc False e1(2) show ?thesis by simp
        next
          case (Suc k)
          with \<open>i = Suc j\<close> i have k: "k < length pre - 1" by simp
          have "remoteState (fold interrupt (take (Suc k) pre) s2)
                = remoteState (fold interrupt ([e0, e1] @ take (Suc k) pre) s)"
            by (rule fold_interrupt_consumed [OF c2])
          with ea [OF k] Suc \<open>i = Suc j\<close> show ?thesis by simp
        qed
      qed
      ultimately have "loop_exit start p s s' (e0 # e1 # pre)"
        using ne ex by (simp add: loop_exit_def)
      then show ?thesis ..
    qed
  qed
qed


lemma period_le: "0 \<le> d \<Longrightarrow> d < 2 ^ 32 \<Longrightarrow> (word_of_int d \<le> (w :: ulong)) = (d \<le> uint w)"
  by (simp add: word_le_def uint_word_of_int take_bit_int_eq_self)

lemma belay_exit:
  assumes "0 \<le> d" and "d < 2 ^ 32" and "belay d s = Some s'"
  shows "\<exists>obs. belay_returns d s s' obs"
proof -
  from assms(3) obtain start s1 where m: "millis s = Some (start, s1)"
    and l: "belay_loop start (word_of_int d) s1 = Some s'"
    by (auto simp: belay_def split: option.splits)
  from m obtain e0 where e0: "consumed s [e0] s1" "start = now e0"
    by (auto dest: millis_consumed)
  from l obtain pre where "loop_exit start (word_of_int d) s1 s' pre"
    by (auto dest: belay_loop_exit)
  then have c: "consumed s1 pre s'" and ne: "pre \<noteq> []"
    and ex: "if odd (length pre) then \<not> remoteState s' else d \<le> uint (now (last pre) - start)"
    and ea: "\<And>i. i < length pre - 1 \<Longrightarrow>
          (even i \<longrightarrow> remoteState (fold interrupt (take (Suc i) pre) s1)) \<and>
          (odd i \<longrightarrow> \<not> d \<le> uint (now (pre ! i) - start))"
    by (simp_all add: loop_exit_def period_le [OF assms(1,2)] cong: if_cong)
  have 1: "consumed s (e0 # pre) s'" using consumed_trans [OF e0(1) c] by simp
  have 2: "2 \<le> length (e0 # pre)" using ne by (cases pre) simp_all
  have 3: "if even (length (e0 # pre)) then \<not> remoteState s'
           else d \<le> elapsed (e0 # pre) (length (e0 # pre) - 1)"
    using ex ne e0(2) by (auto simp: elapsed_def last_conv_nth split: if_splits)
  have 4: "(odd i \<longrightarrow> remoteState (fold interrupt (take (Suc i) (e0 # pre)) s)) \<and>
        (even i \<longrightarrow> elapsed (e0 # pre) i < d)"
    if i: "i \<in> {1 ..< length (e0 # pre) - 1}" for i
  proof -
    from i obtain j where j: "i = Suc j" "j < length pre - 1" by (cases i) simp_all
    have "remoteState (fold interrupt (take (Suc j) pre) s1)
          = remoteState (fold interrupt ([e0] @ take (Suc j) pre) s)"
      by (rule fold_interrupt_consumed [OF e0(1)])
    with ea [OF j(2)] j(1) e0(2) show ?thesis by (simp add: elapsed_def not_le)
  qed
  from 1 2 3 4 have "belay_returns d s s' (e0 # pre)"
    unfolding belay_returns_def by blast
  then show ?thesis ..
qed

lemma two: "Suc k < length xs \<Longrightarrow> \<exists>a b r. xs = a # b # r"
  by (cases xs; cases "tl xs") auto

lemma belay_loop_terminates:
  "Suc k < length (env s) \<Longrightarrow> p \<le> now (env s ! k) - start \<Longrightarrow>
   p \<le> now (env s ! Suc k) - start \<Longrightarrow> belay_loop start p s \<noteq> None"
proof (induction k arbitrary: s rule: less_induct)
  case (less k)
  from less.prems(1) obtain e0 e1 rest where env: "env s = e0 # e1 # rest"
    by (auto dest: two)
  then have s: "s = s\<lparr>env := e0 # e1 # rest\<rparr>" by simp
  define s1 where "s1 = (interrupt e0 s)\<lparr>env := e1 # rest\<rparr>"
  define s2 where "s2 = (interrupt e1 (interrupt e0 s))\<lparr>env := rest\<rparr>"
  have r: "readRemoteState s = Some (remoteState s1, s1)"
    by (subst s) (simp add: readRemoteState_def observe_upd s1_def)
  have m: "millis s1 = Some (now e1, s2)"
    by (simp add: millis_def observe_upd s1_def s2_def interrupt_upd)
  show ?case
  proof (cases "remoteState s1 \<and> \<not> p \<le> now e1 - start")
    case False
    then show ?thesis
      by (subst belay_loop.simps) (auto simp: r m)
  next
    case True
    with less.prems(2,3) env obtain k' where k: "k = Suc (Suc k')"
      by (cases k; cases "k - 1") auto
    have "belay_loop start p s2 \<noteq> None"
    proof (rule less.IH)
      show "k' < k" using k by simp
      show "Suc k' < length (env s2)" using less.prems(1) env k by (simp add: s2_def)
      show "p \<le> now (env s2 ! k') - start" using less.prems(2) env k by (simp add: s2_def)
      show "p \<le> now (env s2 ! Suc k') - start" using less.prems(3) env k by (simp add: s2_def)
    qed
    with True show ?thesis
      by (subst belay_loop.simps) (simp add: r m)
  qed
qed

lemma belay_terminates:
  assumes "0 \<le> d" and "d < 2 ^ 32" and "Suc (Suc k) < length (env s)"
    and "d \<le> elapsed (env s) (Suc k)" and "d \<le> elapsed (env s) (Suc (Suc k))"
  shows "belay d s \<noteq> None"
proof -
  from assms(3) obtain e0 rest where env: "env s = e0 # rest" by (cases "env s") auto
  then have s: "s = s\<lparr>env := e0 # rest\<rparr>" by simp
  define s1 where "s1 = (interrupt e0 s)\<lparr>env := rest\<rparr>"
  have m: "millis s = Some (now e0, s1)"
    by (subst s) (simp add: millis_def observe_upd s1_def)
  have "belay_loop (now e0) (word_of_int d) s1 \<noteq> None"
  proof (rule belay_loop_terminates [of k])
    show "Suc k < length (env s1)" using assms(3) env by (simp add: s1_def)
    show "word_of_int d \<le> now (env s1 ! k) - now e0"
      using assms(4) env by (simp add: s1_def elapsed_def period_le [OF assms(1,2)])
    show "word_of_int d \<le> now (env s1 ! Suc k) - now e0"
      using assms(5) env by (simp add: s1_def elapsed_def period_le [OF assms(1,2)])
  qed
  then show ?thesis by (simp add: belay_def m)
qed

text \<open>
  C6. For a period \<open>d\<close> that is a non-negative \<^verbatim>\<open>long\<close>: a call of \<open>belay d\<close> that
  returns does so either with the flag off or at a clock poll that shows at least \<open>d\<close> ms
  elapsed since the call started, and at the first poll at which one of the two happens.
  And the call does return: when the clock shows at least \<open>d\<close> ms elapsed at two consecutive
  observations, it has returned by the second.
\<close>

theorem belay_contract:
  assumes "0 \<le> d" and "d < 2 ^ 31"
  shows "(belay d s = Some s' \<longrightarrow> (\<exists>obs. belay_returns d s s' obs))
       \<and> (Suc (Suc k) < length (env s) \<and> d \<le> elapsed (env s) (Suc k)
            \<and> d \<le> elapsed (env s) (Suc (Suc k)) \<longrightarrow> belay d s \<noteq> None)"
proof -
  from assms(2) have d: "d < 2 ^ 32" by simp
  from belay_exit [OF assms(1) d] belay_terminates [OF assms(1) d] show ?thesis by blast
qed

theorem belay_contract_witness:
  "belay 30 (boot wait_run) = Some ((boot [tick 41])\<lparr>remoteState := True\<rparr>)
   \<and> (\<exists>obs. belay_returns 30 (boot wait_run) ((boot [tick 41])\<lparr>remoteState := True\<rparr>) obs)
   \<and> belay_returns 30 (boot wait_run) ((boot [tick 41])\<lparr>remoteState := True\<rparr>) (take 5 wait_run)
   \<and> Suc (Suc 3) < length (env (boot wait_run))
   \<and> 30 \<le> elapsed (env (boot wait_run)) (Suc 3) \<and> 30 \<le> elapsed (env (boot wait_run)) (Suc (Suc 3))"
proof -
  have 0: "(0::int) \<le> 30" "(30::int) < 2 ^ 31" by simp_all
  have 1: "belay 30 (boot wait_run) = Some ((boot [tick 41])\<lparr>remoteState := True\<rparr>)"
    by code_simp
  have 2: "Suc (Suc 3) < length (env (boot wait_run))" by code_simp
  have 3: "30 \<le> elapsed (env (boot wait_run)) (Suc 3)" by code_simp
  have 4: "30 \<le> elapsed (env (boot wait_run)) (Suc (Suc 3))" by code_simp
  have 5: "belay_returns 30 (boot wait_run) ((boot [tick 41])\<lparr>remoteState := True\<rparr>)
             (take 5 wait_run)" by code_simp
  from belay_contract [OF 0, of "boot wait_run" _ 3] 1 2 3 4 5 show ?thesis by simp
qed

subsection \<open>A negative period\<close>

lemma cast_negative:
  assumes "p < 0" and "- (2 ^ 31) \<le> p"
  shows "(word_of_int (2 ^ 32 + p) :: ulong) = word_of_int p"
    and "uint (word_of_int p :: ulong) = 2 ^ 32 + p"
proof -
  show "(word_of_int (2 ^ 32 + p) :: ulong) = word_of_int p"
    by (simp only: word_of_int_eq_iff take_bit_eq_mod) simp
  have "uint (word_of_int p :: ulong) = p mod 2 ^ 32"
    by (simp only: uint_word_of_int take_bit_eq_mod) simp
  also have "\<dots> = (p + 2 ^ 32) mod 2 ^ 32" by simp
  also have "\<dots> = p + 2 ^ 32" using assms by (intro mod_pos_pos_trivial) simp_all
  finally show "uint (word_of_int p :: ulong) = 2 ^ 32 + p" by simp
qed

text \<open>
  C10, as the code has it. A negative \<^verbatim>\<open>long\<close> period \<open>p\<close> is cast to
  \<open>2 ^ 32 + p\<close>, which is at least \<open>2 ^ 31\<close>, and the call is the call with that period:
  it returns with the flag off, or with the flag still on at a clock poll that shows at
  least \<open>2 ^ 32 + p\<close> ms elapsed. Unless \<open>p\<close> is the least \<^verbatim>\<open>long\<close>, that is more
  than \<open>\<bar>p\<bar>\<close> ms.
\<close>

theorem belay_negative_period:
  assumes "p < 0" and "- (2 ^ 31) \<le> p"
  shows "belay p s = belay (2 ^ 32 + p) s
       \<and> uint (word_of_int p :: ulong) = 2 ^ 32 + p
       \<and> 2 ^ 31 \<le> 2 ^ 32 + p
       \<and> (p \<noteq> - (2 ^ 31) \<longrightarrow> \<bar>p\<bar> < 2 ^ 32 + p)
       \<and> (belay p s = Some s' \<longrightarrow> (\<exists>obs. belay_returns (2 ^ 32 + p) s s' obs))
       \<and> (belay p s = Some s' \<and> remoteState s' \<longrightarrow>
            (\<exists>obs. consumed s obs s' \<and> 2 ^ 32 + p \<le> elapsed obs (length obs - 1)))"
proof -
  have 1: "belay p s = belay (2 ^ 32 + p) s"
    by (simp only: belay_def cast_negative(1) [OF assms])
  have 2: "(0::int) \<le> 2 ^ 32 + p" "2 ^ 32 + p < (2::int) ^ 32" using assms by simp_all
  have 3: "\<exists>obs. belay_returns (2 ^ 32 + p) s s' obs" if "belay p s = Some s'"
    using that 1 belay_exit [OF 2, of s s'] by simp
  have 4: "\<exists>obs. consumed s obs s' \<and> 2 ^ 32 + p \<le> elapsed obs (length obs - 1)"
    if "belay p s = Some s'" and "remoteState s'"
  proof -
    from 3 [OF that(1)] obtain obs where "belay_returns (2 ^ 32 + p) s s' obs" ..
    with that(2) have "consumed s obs s' \<and> 2 ^ 32 + p \<le> elapsed obs (length obs - 1)"
      by (auto simp: belay_returns_def split: if_splits)
    then show ?thesis ..
  qed
  from 1 3 4 cast_negative(2) [OF assms] assms show ?thesis by auto
qed

theorem belay_negative_period_witness:
  "belay (- 1) (boot [sig 0 True, tick 1, tick 500, sig 501 False, tick 502])
     = Some (boot [tick 502])
   \<and> belay (- 1) (boot [sig 0 True, tick 1, tick 500, sig 501 False, tick 502])
     = belay (2 ^ 32 + - 1) (boot [sig 0 True, tick 1, tick 500, sig 501 False, tick 502])
   \<and> uint (word_of_int (- 1) :: ulong) = 2 ^ 32 + - 1
   \<and> \<bar>- 1 :: int\<bar> < 2 ^ 32 + - 1
   \<and> (\<exists>obs. belay_returns (2 ^ 32 + - 1)
          (boot [sig 0 True, tick 1, tick 500, sig 501 False, tick 502]) (boot [tick 502]) obs)"
proof -
  have 0: "(- 1 :: int) < 0" "- (2 ^ 31) \<le> (- 1 :: int)" by simp_all
  have 1: "belay (- 1) (boot [sig 0 True, tick 1, tick 500, sig 501 False, tick 502])
     = Some (boot [tick 502])" by code_simp
  from belay_negative_period [OF 0,
      of "boot [sig 0 True, tick 1, tick 500, sig 501 False, tick 502]" "boot [tick 502]"] 1
  show ?thesis by simp
qed

text \<open>
  For the least \<^verbatim>\<open>long\<close> the cast period is \<open>\<bar>p\<bar>\<close> itself, and the call returns
  after \<open>\<bar>p\<bar>\<close> ms with the signal still on. For \<open>p = -1\<close> it returns with the signal
  still on once the clock poll shows \<open>2 ^ 32 - 1\<close> ms.
\<close>

theorem belay_negative_period_counterexample:
  "belay (- 2147483648) (boot [sig 0 True, tick 1, tick 2147483648])
     = Some ((boot [])\<lparr>remoteState := True\<rparr>)
   \<and> elapsed [sig 0 True, tick 1, tick 2147483648] 2 = \<bar>- 2147483648\<bar>
   \<and> belay (- 1) (boot [sig 0 True, tick 1, tick 4294967295])
     = Some ((boot [])\<lparr>remoteState := True\<rparr>)"
  by code_simp

subsection \<open>Timestamps against the returned state\<close>

lemma keep_on:
  fixes a b t1 t2 :: ulong
  shows "a \<le> t1 \<Longrightarrow> b \<le> t1 \<Longrightarrow> t1 \<le> t2 \<Longrightarrow> \<not> t1 - b \<le> t2 - a \<Longrightarrow> b \<le> a"
  by unat_arith

lemma keep_off:
  fixes a b t1 t2 :: ulong
  shows "a \<le> t1 \<Longrightarrow> b \<le> t1 \<Longrightarrow> t1 \<le> t2 \<Longrightarrow> \<not> t1 - a < t2 - b \<Longrightarrow> a \<le> b"
  by unat_arith

lemma observe_nil: "observe (s\<lparr>env := []\<rparr>) = None"
  by (simp add: observe_def)

lemma short: "length xs < 4 \<Longrightarrow>
  xs = [] \<or> (\<exists>a. xs = [a]) \<or> (\<exists>a b. xs = [a, b]) \<or> (\<exists>a b c. xs = [a, b, c])"
  by (auto simp: numeral_eq_Suc less_Suc_eq length_Suc_conv)

lemma switchOn_short: "length (env s) < 4 \<Longrightarrow> switchOn s = None"
proof -
  assume "length (env s) < 4"
  then consider "env s = []" | a where "env s = [a]" | a b where "env s = [a, b]"
    | a b c where "env s = [a, b, c]" using short by blast
  then show ?thesis
  proof cases
    case 1
    then have s: "s = s\<lparr>env := []\<rparr>" by simp
    show ?thesis by (subst s) (simp add: exec observe_nil)
  next
    case 2
    then have s: "s = s\<lparr>env := [a]\<rparr>" by simp
    show ?thesis by (subst s) (simp add: exec observe_nil)
  next
    case 3
    then have s: "s = s\<lparr>env := [a, b]\<rparr>" by simp
    show ?thesis by (subst s) (simp add: exec observe_nil)
  next
    case 4
    then have s: "s = s\<lparr>env := [a, b, c]\<rparr>" by simp
    show ?thesis by (subst s) (simp add: exec observe_nil)
  qed
qed

lemma four: "4 \<le> length xs \<Longrightarrow> \<exists>a b c d r. xs = a # b # c # d # r"
  by (auto simp: numeral_eq_Suc Suc_le_length_iff)

lemma unwrapped_upd:
  "unwrapped (s\<lparr>env := es\<rparr>) \<longleftrightarrow>
     list_all (\<lambda>e. lastOn s \<le> now e \<and> lastOff s \<le> now e) es \<and> sorted (map now es)"
  "unwrapped (s\<lparr>lastOn := t, env := es\<rparr>) \<longleftrightarrow>
     list_all (\<lambda>e. t \<le> now e \<and> lastOff s \<le> now e) es \<and> sorted (map now es)"
  "unwrapped (s\<lparr>lastOff := t, env := es\<rparr>) \<longleftrightarrow>
     list_all (\<lambda>e. lastOn s \<le> now e \<and> t \<le> now e) es \<and> sorted (map now es)"
  by (simp_all add: unwrapped_def)

lemma list_all_mono_le:
  fixes t :: ulong
  shows "list_all (\<lambda>e. t \<le> now e) es \<Longrightarrow> t' \<le> t \<Longrightarrow> list_all (\<lambda>e. t' \<le> now e) es"
  by (induction es) auto

text \<open>
  C8, as the code has it. Take a call of \<open>switchOn\<close> that returns the flag value it
  tested, with the counter not wrapped. If it returns true then \<open>lastOff \<le> lastOn\<close>
  afterwards, if it returns false then \<open>lastOn \<le> lastOff\<close>; and the counter is still
  not wrapped for the rest of the trace, so the same holds for the next call.
\<close>

theorem switchOn_order:
  assumes sw: "switchOn s = Some (r, s')" and rd: "readRemoteState s = Some (r, s0)"
    and un: "unwrapped s"
  shows "(r \<longrightarrow> lastOff s' \<le> lastOn s') \<and> (\<not> r \<longrightarrow> lastOn s' \<le> lastOff s') \<and> unwrapped s'"
proof -
  from sw switchOn_short [of s] have "4 \<le> length (env s)" by (cases "length (env s) < 4") auto
  then obtain e0 e1 e2 e3 rest where env: "env s = e0 # e1 # e2 # e3 # rest"
    by (auto dest: four)
  from un env have c: "lastOn s \<le> now e1" "lastOff s \<le> now e1" "now e1 \<le> now e2"
    "now e2 \<le> now e3" by (simp_all add: unwrapped_def)
  from c have c3: "lastOn s \<le> now e3" "lastOff s \<le> now e3" by simp_all
  from un env have ur: "list_all (\<lambda>e. lastOn s \<le> now e \<and> lastOff s \<le> now e) rest"
    "sorted (map now rest)" "list_all (\<lambda>e. now e3 \<le> now e) rest"
    by (auto simp: unwrapped_def list_all_iff)
  from rd have r: "r = remoteState (interrupt e0 s)"
    using env by (auto simp: readRemoteState_def observe_def split: option.splits list.splits)
  from sw have X: "switchOn (s\<lparr>env := e0 # e1 # e2 # e3 # rest\<rparr>) = Some (r, s')"
    by (simp add: env [symmetric])
  show ?thesis
  proof (cases r)
    case True
    show ?thesis
    proof (cases "now e1 - lastOff s \<le> now e2 - lastOn s")
      case u: True
      from X True r u ur have "lastOn s' = now e3 \<and> lastOff s' = lastOff s \<and> unwrapped s'"
        by (cases rest) (auto simp: exec observe_nil unwrapped_upd list_all_iff)
      with c3 True show ?thesis by simp
    next
      case u: False
      from X True r u ur have "lastOn s' = lastOn s \<and> lastOff s' = lastOff s \<and> unwrapped s'"
        by (auto simp: exec unwrapped_upd)
      with keep_on [OF c(1,2,3) u] True show ?thesis by simp
    qed
  next
    case False
    show ?thesis
    proof (cases "now e1 - lastOn s < now e2 - lastOff s")
      case u: True
      from X False r u ur have "lastOff s' = now e3 \<and> lastOn s' = lastOn s \<and> unwrapped s'"
        by (cases rest) (auto simp: exec observe_nil unwrapped_upd list_all_iff)
      with c3 False show ?thesis by simp
    next
      case u: False
      from X False r u ur have "lastOn s' = lastOn s \<and> lastOff s' = lastOff s \<and> unwrapped s'"
        by (auto simp: exec unwrapped_upd)
      with keep_off [OF c(1,2,3) u] False show ?thesis by simp
    qed
  qed
qed

theorem switchOn_order_witness:
  "switchOn (boot [sig 5 True, tick 5, tick 7, tick 8, tick 8])
     = Some (True, \<lparr>lastOn = 8, lastOff = 0, remoteState = True, out = [], env = []\<rparr>)
   \<and> unwrapped (boot [sig 5 True, tick 5, tick 7, tick 8, tick 8])
   \<and> lastOff \<lparr>lastOn = 8, lastOff = 0, remoteState = True, out = [], env = []\<rparr>
       \<le> lastOn \<lparr>lastOn = 8, lastOff = 0, remoteState = True, out = [], env = []\<rparr>
   \<and> switchOn \<lparr>lastOn = 8, lastOff = 0, remoteState = True, out = [],
                env = [sig 20 False, tick 20, tick 20, tick 21, tick 21]\<rparr>
     = Some (False, \<lparr>lastOn = 8, lastOff = 21, remoteState = False, out = [], env = []\<rparr>)
   \<and> lastOn \<lparr>lastOn = 8, lastOff = 21, remoteState = False, out = [], env = []\<rparr>
       \<le> lastOff \<lparr>lastOn = 8, lastOff = 21, remoteState = False, out = [], env = []\<rparr>"
proof -
  let ?a = "boot [sig 5 True, tick 5, tick 7, tick 8, tick 8]"
  let ?a' = "\<lparr>lastOn = 8, lastOff = 0, remoteState = True, out = [], env = []\<rparr>"
  let ?b = "\<lparr>lastOn = 8, lastOff = 0, remoteState = True, out = [],
             env = [sig 20 False, tick 20, tick 20, tick 21, tick 21]\<rparr>"
  let ?b' = "\<lparr>lastOn = 8, lastOff = 21, remoteState = False, out = [], env = []\<rparr>"
  have a1: "switchOn ?a = Some (True, ?a')" by code_simp
  have a2: "readRemoteState ?a
      = Some (True, (boot [tick 5, tick 7, tick 8, tick 8])\<lparr>remoteState := True\<rparr>)"
    by code_simp
  have a3: "unwrapped ?a" by code_simp
  have b1: "switchOn ?b = Some (False, ?b')" by code_simp
  have b2: "readRemoteState ?b
      = Some (False, \<lparr>lastOn = 8, lastOff = 0, remoteState = False, out = [],
                      env = [tick 20, tick 20, tick 21, tick 21]\<rparr>)"
    by code_simp
  have b3: "unwrapped ?b" by code_simp
  from switchOn_order [OF a1 a2 a3] switchOn_order [OF b1 b2 b3] a1 a3 b1
  show ?thesis by simp
qed

text \<open>
  Without the two conditions the order can fail. In \<open>race_run\<close> the second call tests the
  flag off, stores \<open>lastOff = 10\<close>, and returns the flag on. In \<open>wrap_run\<close> the third
  call stores \<open>lastOn = 6\<close> after the counter has wrapped. Both return true with
  \<open>lastOn < lastOff\<close>.
\<close>

theorem switchOn_order_counterexample:
  "switchOn (boot race_run)
     = Some (True, \<lparr>lastOn = 5, lastOff = 0, remoteState = True, out = [],
                    env = drop 5 race_run\<rparr>)
   \<and> switchOn \<lparr>lastOn = 5, lastOff = 0, remoteState = True, out = [], env = drop 5 race_run\<rparr>
     = Some (True, \<lparr>lastOn = 5, lastOff = 10, remoteState = True, out = [], env = []\<rparr>)
   \<and> \<not> lastOff \<lparr>lastOn = 5, lastOff = 10, remoteState = True, out = [], env = []\<rparr>
         \<le> lastOn \<lparr>lastOn = 5, lastOff = 10, remoteState = True, out = [], env = []\<rparr>
   \<and> switchOn (boot wrap_run)
     = Some (True, \<lparr>lastOn = 100, lastOff = 0, remoteState = True, out = [],
                    env = drop 5 wrap_run\<rparr>)
   \<and> switchOn \<lparr>lastOn = 100, lastOff = 0, remoteState = True, out = [], env = drop 5 wrap_run\<rparr>
     = Some (False, \<lparr>lastOn = 100, lastOff = 4294967290, remoteState = False, out = [],
                     env = drop 10 wrap_run\<rparr>)
   \<and> switchOn \<lparr>lastOn = 100, lastOff = 4294967290, remoteState = False, out = [],
                env = drop 10 wrap_run\<rparr>
     = Some (True, \<lparr>lastOn = 6, lastOff = 4294967290, remoteState = True, out = [], env = []\<rparr>)
   \<and> \<not> lastOff \<lparr>lastOn = 6, lastOff = 4294967290, remoteState = True, out = [], env = []\<rparr>
         \<le> lastOn \<lparr>lastOn = 6, lastOff = 4294967290, remoteState = True, out = [], env = []\<rparr>"
  by code_simp

subsection \<open>What a call of switchOn stores\<close>

lemma switchOn_stamps:
  assumes sw: "switchOn s = Some (r, s')" and un: "unwrapped s"
  shows "lastOn s' = (if tested s \<and> reading s 1 - lastOff s \<le> reading s 2 - lastOn s
                      then reading s 3 else lastOn s)"
    and "lastOff s' = (if \<not> tested s \<and> reading s 1 - lastOn s < reading s 2 - lastOff s
                       then reading s 3 else lastOff s)"
    and "unwrapped s'"
    and "lastOn s \<le> reading s 1" and "lastOff s \<le> reading s 1"
    and "reading s 1 \<le> reading s 2" and "reading s 2 \<le> reading s 3"
proof -
  from sw switchOn_short [of s] have "4 \<le> length (env s)" by (cases "length (env s) < 4") auto
  then obtain e0 e1 e2 e3 rest where env: "env s = e0 # e1 # e2 # e3 # rest"
    by (auto dest: four)
  from un env have c: "lastOn s \<le> now e1" "lastOff s \<le> now e1" "now e1 \<le> now e2"
    "now e2 \<le> now e3" by (simp_all add: unwrapped_def)
  from un env have ur: "list_all (\<lambda>e. lastOn s \<le> now e \<and> lastOff s \<le> now e) rest"
    "sorted (map now rest)" "list_all (\<lambda>e. now e3 \<le> now e) rest"
    by (auto simp: unwrapped_def list_all_iff)
  have rd: "reading s 1 = now e1" "reading s (Suc 0) = now e1" "reading s 2 = now e2"
    "reading s 3 = now e3"
    "tested s = remoteState (interrupt e0 s)"
    by (simp_all add: reading_def tested_def env)
  from c show "lastOn s \<le> reading s 1" "lastOff s \<le> reading s 1"
    "reading s 1 \<le> reading s 2" "reading s 2 \<le> reading s 3" by (simp_all add: rd)
  from sw have X: "switchOn (s\<lparr>env := e0 # e1 # e2 # e3 # rest\<rparr>) = Some (r, s')"
    by (simp add: env [symmetric])
  have "lastOn s' = (if tested s \<and> reading s 1 - lastOff s \<le> reading s 2 - lastOn s
                      then reading s 3 else lastOn s)
      \<and> lastOff s' = (if \<not> tested s \<and> reading s 1 - lastOn s < reading s 2 - lastOff s
                       then reading s 3 else lastOff s)
      \<and> unwrapped s'"
  proof (cases "remoteState (interrupt e0 s)")
    case True
    show ?thesis
    proof (cases "now e1 - lastOff s \<le> now e2 - lastOn s")
      case u: True
      from X True u ur have "lastOn s' = now e3 \<and> lastOff s' = lastOff s \<and> unwrapped s'"
        by (cases rest) (auto simp: exec observe_nil unwrapped_upd list_all_iff)
      with True u show ?thesis by (simp add: rd)
    next
      case u: False
      from X True u ur have "lastOn s' = lastOn s \<and> lastOff s' = lastOff s \<and> unwrapped s'"
        by (auto simp: exec unwrapped_upd)
      with True u show ?thesis by (simp add: rd)
    qed
  next
    case False
    show ?thesis
    proof (cases "now e1 - lastOn s < now e2 - lastOff s")
      case u: True
      from X False u ur have "lastOff s' = now e3 \<and> lastOn s' = lastOn s \<and> unwrapped s'"
        by (cases rest) (auto simp: exec observe_nil unwrapped_upd list_all_iff)
      with False u show ?thesis by (simp add: rd)
    next
      case u: False
      from X False u ur have "lastOn s' = lastOn s \<and> lastOff s' = lastOff s \<and> unwrapped s'"
        by (auto simp: exec unwrapped_upd)
      with False u show ?thesis by (simp add: rd)
    qed
  qed
  then show "lastOn s' = (if tested s \<and> reading s 1 - lastOff s \<le> reading s 2 - lastOn s
                      then reading s 3 else lastOn s)"
    and "lastOff s' = (if \<not> tested s \<and> reading s 1 - lastOn s < reading s 2 - lastOff s
                       then reading s 3 else lastOff s)"
    and "unwrapped s'" by simp_all
qed

lemma gap_on:
  fixes a b t1 t2 :: ulong
  shows "a \<le> t1 \<Longrightarrow> b \<le> t1 \<Longrightarrow> t1 \<le> t2 \<Longrightarrow>
         (t1 - b \<le> t2 - a) = (uint a - uint b \<le> uint t2 - uint t1)"
  by uint_arith

lemma gap_off:
  fixes a b t1 t2 :: ulong
  shows "a \<le> t1 \<Longrightarrow> b \<le> t1 \<Longrightarrow> t1 \<le> t2 \<Longrightarrow>
         (t1 - a < t2 - b) = (- (uint a - uint b) < uint t2 - uint t1)"
  by uint_arith

text \<open>
  C3, as the code has it. With the counter not wrapped, a call of \<open>switchOn\<close> stores
  \<open>lastOn\<close> exactly when the flag it tests is on and \<open>lastOn\<close> leads \<open>lastOff\<close> by no
  more than the clock moves between the two helpers, and stores \<open>lastOff\<close> exactly when the
  flag is off and \<open>lastOff\<close> leads \<open>lastOn\<close> by less than that. So a call that finds the
  flag on with \<open>lastOn \<le> lastOff\<close> records the on-edge, one that finds it off with
  \<open>lastOff < lastOn\<close> records the off-edge, and a call in a sustained period changes
  neither timestamp as long as the clock moves inside the call by less than the timestamps
  are apart. The counter is still not wrapped afterwards, so the rule holds for the next
  call, whatever the clock does between the calls.
\<close>

theorem switchOn_once_per_edge:
  assumes "switchOn s = Some (r, s')" and "unwrapped s"
  shows "lastOn s' = (if tested s \<and> lead s \<le> advance s then reading s 3 else lastOn s)
       \<and> lastOff s' = (if \<not> tested s \<and> - lead s < advance s then reading s 3 else lastOff s)
       \<and> 0 \<le> advance s
       \<and> (tested s \<and> lead s \<le> 0 \<longrightarrow> lastOn s' = reading s 3 \<and> lastOff s' = lastOff s)
       \<and> (\<not> tested s \<and> 0 < lead s \<longrightarrow> lastOff s' = reading s 3 \<and> lastOn s' = lastOn s)
       \<and> (tested s \<and> advance s < lead s \<longrightarrow> lastOn s' = lastOn s \<and> lastOff s' = lastOff s)
       \<and> (\<not> tested s \<and> advance s \<le> - lead s \<longrightarrow>
            lastOn s' = lastOn s \<and> lastOff s' = lastOff s)
       \<and> unwrapped s'"
proof -
  note st = switchOn_stamps [OF assms]
  have on: "(reading s 1 - lastOff s \<le> reading s 2 - lastOn s) = (lead s \<le> advance s)"
    unfolding lead_def advance_def by (rule gap_on [OF st(4,5,6)])
  have off: "(reading s 1 - lastOn s < reading s 2 - lastOff s) = (- lead s < advance s)"
    unfolding lead_def advance_def by (rule gap_off [OF st(4,5,6)])
  have adv: "0 \<le> advance s"
    using st(6) by (simp add: advance_def word_le_def)
  have 1: "lastOn s' = (if tested s \<and> lead s \<le> advance s then reading s 3 else lastOn s)"
    by (simp only: st(1) on)
  have 2: "lastOff s' = (if \<not> tested s \<and> - lead s < advance s then reading s 3 else lastOff s)"
    by (simp only: st(2) off)
  from 1 2 adv st(3) show ?thesis by auto
qed

theorem switchOn_once_per_edge_witness:
  "switchOn (boot [sig 100 True, tick 100, tick 101, tick 101, tick 102])
     = Some (True, state_at 101 0 True [])
   \<and> tested (boot [sig 100 True, tick 100, tick 101, tick 101, tick 102])
   \<and> lead (boot [sig 100 True, tick 100, tick 101, tick 101, tick 102]) \<le> 0
   \<and> lastOn (state_at 101 0 True [])
       = reading (boot [sig 100 True, tick 100, tick 101, tick 101, tick 102]) 3
   \<and> switchOn (state_at 101 0 True [tick 600, tick 600, tick 601, tick 601])
     = Some (True, state_at 101 0 True [])
   \<and> advance (state_at 101 0 True [tick 600, tick 600, tick 601, tick 601])
       < lead (state_at 101 0 True [tick 600, tick 600, tick 601, tick 601])
   \<and> switchOn (state_at 101 0 True [sig 900 False, tick 900, tick 901, tick 901, tick 902])
     = Some (False, state_at 101 901 False [])
   \<and> \<not> tested (state_at 101 0 True [sig 900 False, tick 900, tick 901, tick 901, tick 902])
   \<and> lastOff (state_at 101 901 False [])
       = reading (state_at 101 0 True [sig 900 False, tick 900, tick 901, tick 901, tick 902]) 3
   \<and> switchOn (state_at 101 901 False [tick 1500, tick 1500, tick 1501, tick 1501])
     = Some (False, state_at 101 901 False [])
   \<and> advance (state_at 101 901 False [tick 1500, tick 1500, tick 1501, tick 1501])
       \<le> - lead (state_at 101 901 False [tick 1500, tick 1500, tick 1501, tick 1501])"
proof -
  let ?a = "boot [sig 100 True, tick 100, tick 101, tick 101, tick 102]"
  let ?b = "state_at 101 0 True [tick 600, tick 600, tick 601, tick 601]"
  let ?c = "state_at 101 0 True [sig 900 False, tick 900, tick 901, tick 901, tick 902]"
  let ?d = "state_at 101 901 False [tick 1500, tick 1500, tick 1501, tick 1501]"
  have a: "switchOn ?a = Some (True, state_at 101 0 True [])" "unwrapped ?a" "tested ?a" "lead ?a \<le> 0"
    by code_simp+
  have b: "switchOn ?b = Some (True, state_at 101 0 True [])" "unwrapped ?b" "tested ?b"
    "advance ?b < lead ?b"
    by code_simp+
  have c: "switchOn ?c = Some (False, state_at 101 901 False [])" "unwrapped ?c" "\<not> tested ?c"
    "0 < lead ?c"
    by code_simp+
  have d: "switchOn ?d = Some (False, state_at 101 901 False [])" "unwrapped ?d" "\<not> tested ?d"
    "advance ?d \<le> - lead ?d"
    by code_simp+
  from switchOn_once_per_edge [OF a(1,2)] a(3,4)
  have a': "lastOn (state_at 101 0 True []) = reading ?a 3" by simp
  from switchOn_once_per_edge [OF c(1,2)] c(3,4)
  have c': "lastOff (state_at 101 901 False []) = reading ?c 3" by simp
  from switchOn_once_per_edge [OF b(1,2)] switchOn_once_per_edge [OF d(1,2)]
    a a' b c c' d show ?thesis by simp
qed

text \<open>
  Calls that store a timestamp with no edge since the call before. In \<open>tie_run\<close> the third
  call records the signal coming on state_at 500, the value \<open>lastOff\<close> has, and the fourth moves
  \<open>lastOn\<close> to 600. Right after power-up, with the signal off throughout, a clock that
  moves from 5 to 6 inside the call makes it store \<open>lastOff = 6\<close>. In \<open>drift_run\<close> the
  fourth call moves \<open>lastOn\<close> from 10 to 21 because the clock moves by as much as the
  timestamps are apart. In \<open>long_on_run\<close> the second call stores \<open>lastOn = 5\<close> after the
  counter has wrapped.
\<close>

theorem switchOn_once_per_edge_counterexample:
  "switchOn (boot tie_run) = Some (True, state_at 100 0 True (drop 5 tie_run))
   \<and> switchOn (state_at 100 0 True (drop 5 tie_run)) = Some (False, state_at 100 500 False (drop 10 tie_run))
   \<and> switchOn (state_at 100 500 False (drop 10 tie_run)) = Some (True, state_at 500 500 True (drop 15 tie_run))
   \<and> list_all (\<lambda>e. edge e = None) (drop 15 tie_run)
   \<and> switchOn (state_at 500 500 True (drop 15 tie_run)) = Some (True, state_at 600 500 True [])
   \<and> lastOn (state_at 600 500 True []) \<noteq> lastOn (state_at 500 500 True (drop 15 tie_run))
   \<and> switchOn (boot [tick 0, tick 5, tick 6, tick 6, tick 6]) = Some (False, state_at 0 6 False [])
   \<and> lastOff (state_at 0 6 False []) \<noteq> lastOff (boot [tick 0, tick 5, tick 6, tick 6, tick 6])
   \<and> switchOn (boot drift_run) = Some (True, state_at 3 0 True (drop 5 drift_run))
   \<and> switchOn (state_at 3 0 True (drop 5 drift_run)) = Some (False, state_at 3 9 False (drop 10 drift_run))
   \<and> switchOn (state_at 3 9 False (drop 10 drift_run)) = Some (True, state_at 10 9 True (drop 15 drift_run))
   \<and> list_all (\<lambda>e. edge e = None) (drop 15 drift_run)
   \<and> switchOn (state_at 10 9 True (drop 15 drift_run)) = Some (True, state_at 21 9 True [])
   \<and> lastOn (state_at 21 9 True []) \<noteq> lastOn (state_at 10 9 True (drop 15 drift_run))
   \<and> switchOn (boot long_on_run) = Some (True, state_at 10 0 True (drop 5 long_on_run))
   \<and> list_all (\<lambda>e. edge e = None) (drop 5 long_on_run)
   \<and> switchOn (state_at 10 0 True (drop 5 long_on_run)) = Some (True, state_at 5 0 True [])
   \<and> lastOn (state_at 5 0 True []) \<noteq> lastOn (state_at 10 0 True (drop 5 long_on_run))"
  by code_simp

subsection \<open>A signal that takes a level and keeps it\<close>

lemma holds_from_length: "holds_from lv n r es \<Longrightarrow> n \<le> length es"
  by (induction es arbitrary: r) (auto dest: le_SucI)

lemma winding_length: "winding lv n m s \<Longrightarrow> m \<le> n \<Longrightarrow> m \<le> length (env s)"
  by (auto simp: winding_def turns_def steadily_def dest: holds_from_length)

lemma steadily_mono: "steadily lv m s \<Longrightarrow> m' \<le> m \<Longrightarrow> steadily lv m' s"
proof -
  assume a: "steadily lv m s" and b: "m' \<le> m"
  have "set (take m' (env s)) \<subseteq> set (take m (env s))" using b by (rule set_take_subset_set_take)
  with a b show ?thesis by (auto simp: steadily_def list_all_iff)
qed

lemma winding_mono: "winding lv n m s \<Longrightarrow> m' \<le> m \<Longrightarrow> winding lv n m' s"
  by (auto simp: winding_def dest: steadily_mono)

lemma turns_winding: "turns lv n s \<Longrightarrow> winding lv n m s"
  by (simp add: winding_def)

lemma winding_flag: "winding lv n m s \<Longrightarrow> remoteState s \<noteq> lv \<Longrightarrow> turns lv n s"
  by (auto simp: winding_def steadily_def)

lemma winding_upd [simp]:
  "winding lv n m (setLed led b s) = winding lv n m s"
  "winding lv n m (s\<lparr>lastOn := t\<rparr>) = winding lv n m s"
  "winding lv n m (s\<lparr>lastOff := t\<rparr>) = winding lv n m s"
  "winding lv n m (ledsOff s) = winding lv n m s"
  by (simp_all add: winding_def turns_def steadily_def setLed_def ledsOff_def)

lemma steadily_upd [simp]:
  "steadily lv m (setLed led b s) = steadily lv m s"
  by (simp_all add: steadily_def setLed_def)

lemma observe_steadily:
  assumes "steadily lv (Suc m) s"
  shows "\<exists>e s'. observe s = Some (e, s') \<and> steadily lv m s'"
proof -
  from assms obtain e es where env: "env s = e # es"
    by (cases "env s") (auto simp: steadily_def)
  with assms show ?thesis
    by (cases "edge e") (auto simp: observe_def steadily_def interrupt_sel)
qed

lemma observe_winding:
  assumes "winding lv n (Suc m) s" and "Suc m \<le> n"
  shows "\<exists>e s'. observe s = Some (e, s') \<and> winding lv n m s'"
proof -
  from winding_length [OF assms] obtain e es where env: "env s = e # es"
    by (cases "env s") auto
  let ?s' = "(interrupt e s)\<lparr>env := es\<rparr>"
  have o: "observe s = Some (e, ?s')" by (simp add: observe_def env)
  have r: "remoteState ?s' = (case edge e of None \<Rightarrow> remoteState s | Some l \<Rightarrow> l)"
    by (simp add: interrupt_sel)
  from assms(1) consider "turns lv n ?s'" | "steadily lv n s" | "steadily lv (Suc m) s"
    by (auto simp: winding_def turns_def steadily_def env r)
  then have "winding lv n m ?s'"
  proof cases
    case 1 then show ?thesis by (simp add: winding_def)
  next
    case 2
    then have "steadily lv (Suc m) s" using assms(2) by (rule steadily_mono)
    from observe_steadily [OF this] o show ?thesis by (simp add: winding_def)
  next
    case 3
    from observe_steadily [OF this] o show ?thesis by (simp add: winding_def)
  qed
  with o show ?thesis by blast
qed

lemma observe_turns:
  assumes "turns lv n s" and "remoteState s \<noteq> lv"
  shows "\<exists>e s'. observe s = Some (e, s') \<and> turns lv n s'"
proof (cases "env s")
  case Nil
  with assms show ?thesis by (simp add: turns_def)
next
  case (Cons e es)
  with assms show ?thesis
    by (auto simp: turns_def observe_def interrupt_sel)
qed

lemma readRemoteState_steadily:
  assumes "steadily lv (Suc m) s"
  shows "\<exists>s'. readRemoteState s = Some (lv, s') \<and> steadily lv m s'"
  using observe_steadily [OF assms] by (auto simp: readRemoteState_def steadily_def)

lemma readRemoteState_winding:
  assumes "winding lv n (Suc m) s" and "Suc m \<le> n"
  shows "\<exists>s'. readRemoteState s = Some (remoteState s', s') \<and> winding lv n m s'"
  using observe_winding [OF assms] by (auto simp: readRemoteState_def)

lemma millis_winding:
  assumes "winding lv n (Suc m) s" and "Suc m \<le> n"
  shows "\<exists>t s'. millis s = Some (t, s') \<and> winding lv n m s'"
  using observe_winding [OF assms] by (auto simp: millis_def)

lemma delay_winding:
  assumes "winding lv n (Suc m) s" and "Suc m \<le> n"
  shows "\<exists>s'. delay ms s = Some s' \<and> winding lv n m s'"
  using observe_winding [OF assms] by (auto simp: delay_def)

lemma random2_winding:
  assumes "winding lv n (Suc m) s" and "Suc m \<le> n"
  shows "\<exists>v s'. random2 lo hi s = Some (v, s') \<and> winding lv n m s'"
  using observe_winding [OF assms] winding_mono [OF assms(1), of m]
  by (auto simp: random2_def)

lemma random1_winding:
  assumes "winding lv n (Suc m) s" and "Suc m \<le> n"
  shows "\<exists>v s'. random1 k s = Some (v, s') \<and> winding lv n m s'"
  using observe_winding [OF assms] winding_mono [OF assms(1), of m]
  by (auto simp: random1_def)

lemma millis_turns:
  assumes "turns lv n s" and "remoteState s \<noteq> lv"
  shows "\<exists>t s'. millis s = Some (t, s') \<and> turns lv n s'"
  using observe_turns [OF assms] by (auto simp: millis_def)

lemma delay_turns:
  assumes "turns lv n s" and "remoteState s \<noteq> lv"
  shows "\<exists>s'. delay ms s = Some s' \<and> turns lv n s'"
  using observe_turns [OF assms] by (auto simp: delay_def)

lemma hibernate_returns_aux:
  "winding True n (Suc m) s \<Longrightarrow> Suc m \<le> n \<Longrightarrow> \<exists>s'. hibernate s = Some s'"
proof (induction s rule: hibernate.induct)
  case (1 s)
  from readRemoteState_winding [OF "1.prems"] obtain s1
    where r: "readRemoteState s = Some (remoteState s1, s1)" and w: "winding True n m s1"
    by blast
  show ?case
  proof (cases "remoteState s1")
    case True
    with r show ?thesis by (subst hibernate.simps) simp
  next
    case False
    with w have t: "turns True n s1" by (auto dest: winding_flag)
    from delay_turns [OF t, of fastPollMillis] False obtain s2
      where d: "delay fastPollMillis s1 = Some s2" and t2: "turns True n s2" by auto
    from "1.IH" [OF r refl _ d turns_winding [OF t2] "1.prems"(2)] False
    obtain s' where "hibernate s2 = Some s'" by auto
    with r d False show ?thesis by (subst hibernate.simps) simp
  qed
qed

lemma rises_turns: "rises n s = turns True n s"
  by (simp add: rises_def turns_def)

lemma settles_turns: "settles n s = turns False n s"
  by (simp add: settles_def turns_def)

lemma switchOn_winding:
  assumes w: "winding lv n (m + 5) s" and m: "m + 5 \<le> n"
  shows "\<exists>s'. switchOn s = Some (remoteState s', s') \<and> winding lv n m s'"
proof -
  have "winding lv n (Suc (m + 4)) s" by (rule winding_mono [OF w]) simp
  from readRemoteState_winding [OF this] m obtain s1
    where 1: "readRemoteState s = Some (remoteState s1, s1)" and w1: "winding lv n (m + 4) s1"
    by auto
  have "winding lv n (Suc (m + 3)) s1" by (rule winding_mono [OF w1]) simp
  from millis_winding [OF this] m obtain t2 s2
    where 2: "millis s1 = Some (t2, s2)" and w2: "winding lv n (m + 3) s2"
    by auto
  have "winding lv n (Suc (m + 2)) s2" by (rule winding_mono [OF w2]) simp
  from millis_winding [OF this] m obtain t3 s3
    where 3: "millis s2 = Some (t3, s3)" and w3: "winding lv n (m + 2) s3"
    by auto
  have "winding lv n (Suc (m + 1)) s3" by (rule winding_mono [OF w3]) simp
  from millis_winding [OF this] m obtain t4 s4
    where 4: "millis s3 = Some (t4, s4)" and w4: "winding lv n (m + 1) s4"
    by auto
  have "\<exists>sx. (if remoteState s1 then do {
              (a, sa) \<leftarrow> millisSinceLastOff s1;
              (b, sb) \<leftarrow> millisSinceLastOn sa;
              if a \<le> b then do { (t, sc) \<leftarrow> millis sb; Some (sc\<lparr>lastOn := t\<rparr>) }
              else Some sb }
            else do {
              (a, sa) \<leftarrow> millisSinceLastOn s1;
              (b, sb) \<leftarrow> millisSinceLastOff sa;
              if a < b then do { (t, sc) \<leftarrow> millis sb; Some (sc\<lparr>lastOff := t\<rparr>) }
              else Some sb }) = Some sx \<and> winding lv n (m + 1) sx"
    using 2 3 4 w4 winding_mono [OF w3, of "m + 1"]
    by (auto simp: millisSinceLastOff_def millisSinceLastOn_def)
  then obtain sx where x: "(if remoteState s1 then do {
              (a, sa) \<leftarrow> millisSinceLastOff s1;
              (b, sb) \<leftarrow> millisSinceLastOn sa;
              if a \<le> b then do { (t, sc) \<leftarrow> millis sb; Some (sc\<lparr>lastOn := t\<rparr>) }
              else Some sb }
            else do {
              (a, sa) \<leftarrow> millisSinceLastOn s1;
              (b, sb) \<leftarrow> millisSinceLastOff sa;
              if a < b then do { (t, sc) \<leftarrow> millis sb; Some (sc\<lparr>lastOff := t\<rparr>) }
              else Some sb }) = Some sx" and wx: "winding lv n (Suc m) sx" by auto
  from readRemoteState_winding [OF wx] m obtain s'
    where 5: "readRemoteState sx = Some (remoteState s', s')" and w5: "winding lv n m s'"
    by auto
  have "switchOn s = Some (remoteState s', s')"
    unfolding switchOn_def using 1 x 5 by simp
  with w5 show ?thesis by blast
qed

lemma belay_loop_winding:
  "winding False n (m + 2) s \<Longrightarrow> m + 2 \<le> n \<Longrightarrow>
     \<exists>s'. belay_loop start period s = Some s' \<and> winding False n m s'"
proof (induction start period s rule: belay_loop.induct)
  case (1 start period s)
  have "winding False n (Suc (m + 1)) s" by (rule winding_mono [OF "1.prems"(1)]) simp
  from readRemoteState_winding [OF this] "1.prems"(2) obtain s1
    where r: "readRemoteState s = Some (remoteState s1, s1)" and w: "winding False n (m + 1) s1"
    by auto
  show ?case
  proof (cases "remoteState s1")
    case False
    with r have "belay_loop start period s = Some s1" by (subst belay_loop.simps) simp
    with winding_mono [OF w, of m] show ?thesis by auto
  next
    case True
    with w have t: "turns False n s1" by (auto dest: winding_flag)
    from millis_turns [OF t] True obtain t2 s2
      where c: "millis s1 = Some (t2, s2)" and t2: "turns False n s2" by auto
    show ?thesis
    proof (cases "period \<le> t2 - start")
      case True
      with r c \<open>remoteState s1\<close> have "belay_loop start period s = Some s2"
        by (subst belay_loop.simps) simp
      with turns_winding [OF t2] show ?thesis by blast
    next
      case False
      from "1.IH" [OF r refl _ c refl False turns_winding [OF t2] "1.prems"(2)] True
      obtain s' where "belay_loop start period s2 = Some s'" "winding False n m s'"
        by auto
      with r c True False show ?thesis by (subst belay_loop.simps) simp
    qed
  qed
qed

lemma belay_winding:
  assumes "winding False n (m + 3) s" and "m + 3 \<le> n"
  shows "\<exists>s'. belay period s = Some s' \<and> winding False n m s'"
proof -
  have "winding False n (Suc (m + 2)) s" by (rule winding_mono [OF assms(1)]) simp
  from millis_winding [OF this] assms(2) obtain t s1
    where c: "millis s = Some (t, s1)" and w: "winding False n (m + 2) s1" by auto
  from belay_loop_winding [OF w, of t "word_of_int period"] assms(2)
  obtain s' where "belay_loop t (word_of_int period) s1 = Some s'"
    "winding False n m s'" by auto
  with c show ?thesis by (auto simp: belay_def)
qed

subsection \<open>Idle after the threshold\<close>

lemma hibernate_returns:
  assumes "rises 2 s" and "millis s = Some (shown, s1)"
  shows "\<exists>s'. hibernate s1 = Some s'"
proof -
  from assms(1) have "winding True 2 (Suc 1) s" by (simp add: rises_turns turns_winding)
  from millis_winding [OF this] assms(2) have "winding True 2 (Suc 0) s1" by auto
  from hibernate_returns_aux [OF this] show ?thesis by simp
qed

lemma millisSinceLastOff_reads:
  "millisSinceLastOff s = Some (t, s') \<Longrightarrow>
     t = reading s 0 - lastOff s \<and> out s' = out s \<and> lastOff s' = lastOff s \<and> env s \<noteq> []"
  by (auto simp: millisSinceLastOff_def millis_def observe_def reading_def
           split: option.splits list.splits)

lemma edge_off:
  fixes a b t1 t2 :: ulong
  shows "a \<le> t1 \<Longrightarrow> t1 \<le> t2 \<Longrightarrow> b < a \<Longrightarrow> t1 - a < t2 - b"
  by unat_arith

lemma off_stamps:
  assumes sw: "switchOn s = Some (r, s1)" and un: "unwrapped s" and nt: "\<not> tested s"
  shows "lastOn s1 \<le> lastOff s1" and "env s1 \<noteq> [] \<Longrightarrow> lastOff s1 \<le> reading s1 0"
    and "lastOff s < lastOn s \<Longrightarrow> lastOff s1 = reading s 3"
proof -
  note st = switchOn_stamps [OF sw un]
  show "lastOff s1 = reading s 3" if "lastOff s < lastOn s"
  proof -
    from edge_off [OF st(4,6) that]
    have "reading s 1 - lastOn s < reading s 2 - lastOff s" .
    with st(2) nt show ?thesis by simp
  qed
  show "lastOn s1 \<le> lastOff s1"
  proof (cases "reading s 1 - lastOn s < reading s 2 - lastOff s")
    case True
    with st(1,2) nt have "lastOn s1 = lastOn s" "lastOff s1 = reading s 3" by simp_all
    with st(4,6,7) show ?thesis by simp
  next
    case False
    with st(1,2) nt have "lastOn s1 = lastOn s" "lastOff s1 = lastOff s" by simp_all
    with keep_off [OF st(4,5,6) False] show ?thesis by simp
  qed
  show "lastOff s1 \<le> reading s1 0" if "env s1 \<noteq> []"
    using st(3) that by (cases "env s1") (auto simp: unwrapped_def reading_def)
qed

text \<open>
  C5. A pass that finds the signal off runs no effect. It measures the off-time \<open>t\<close> as
  \<^verbatim>\<open>millis() - lastOff\<close>; when the call of \<open>switchOn\<close> tested the flag off, with the
  counter not wrapped, \<open>lastOff\<close> is not before \<open>lastOn\<close> and not after the clock, so that
  \<open>t\<close> is the time since the off-transition was recorded and the signal was last recorded on
  even longer ago; and if the last transition recorded was an on, this very call records the
  off, with the clock value it reads. While \<open>t\<close> is at most 10000 the pass ends there, counter unchanged,
  nothing written, without entering the hibernation wait. Once \<open>t\<close> exceeds 10000 the pass
  reads the clock once more for the debug line and enters the wait. If the signal comes on
  and stays on for two observations, the wait ends and the pass returns with the counter
  at 0. Whenever the pass returns, the counter is 0, the flag is on and nothing has been
  written; the next pass that finds the signal on runs Static Color, and one that finds it
  off leaves the counter at 0.
\<close>

theorem idle_after_threshold:
  assumes "switchOn s = Some (False, s1)" and "millisSinceLastOff s1 = Some (t, s2)"
  shows "t = reading s1 0 - lastOff s1
       \<and> (\<not> tested s \<and> unwrapped s \<longrightarrow>
            lastOn s1 \<le> lastOff s1 \<and> lastOff s1 \<le> reading s1 0
          \<and> (lastOff s < lastOn s \<longrightarrow> lastOff s1 = reading s 3))
       \<and> (t \<le> 10000 \<longrightarrow> loop_body program s = Some (program, s2) \<and> out s2 = out s)
       \<and> (10000 < t \<longrightarrow>
            loop_body program s =
              (case millis s2 of None \<Rightarrow> None
               | Some (shown, s3) \<Rightarrow>
                   (case hibernate s3 of None \<Rightarrow> None | Some s4 \<Rightarrow> Some (0, s4))))
       \<and> (10000 < t \<and> rises 2 s2 \<longrightarrow>
            (\<exists>x. loop_body program s = Some (0, x) \<and> remoteState x \<and> out x = out s))
       \<and> (10000 < t \<and> loop_body program s = Some (p, s4) \<longrightarrow>
            p = 0 \<and> remoteState s4 \<and> out s4 = out s
          \<and> (switchOn s4 = Some (True, s5) \<longrightarrow>
               loop_body p s4 =
                 (case staticColorProgram 25 255 25 s5 of None \<Rightarrow> None
                  | Some s6 \<Rightarrow> Some (1, s6)))
          \<and> (switchOn s4 = Some (False, s5) \<and> loop_body p s4 = Some (q, s6) \<longrightarrow> q = 0))"
proof -
  note rd = millisSinceLastOff_reads [OF assms(2)]
  have o2: "out s2 = out s"
    using rd switchOn_out [OF assms(1)] by simp
  have a: "loop_body program s = Some (program, s2)" if "t \<le> 10000"
    using that assms by (auto simp: loop_body_def)
  have b: "loop_body program s =
              (case millis s2 of None \<Rightarrow> None
               | Some (shown, s3) \<Rightarrow>
                   (case hibernate s3 of None \<Rightarrow> None | Some s4 \<Rightarrow> Some (0, s4)))"
    if "10000 < t"
    using that assms by (simp add: loop_body_def)
  have c: "\<exists>s4. loop_body program s = Some (0, s4)" if "10000 < t" "rises 2 s2"
  proof -
    from that(2) have "winding True 2 (Suc 1) s2" by (simp add: rises_turns turns_winding)
    from millis_winding [OF this] obtain shown s3 where m: "millis s2 = Some (shown, s3)"
      by auto
    from hibernate_returns [OF that(2) m] obtain s4 where "hibernate s3 = Some s4" by blast
    with b [OF that(1)] m show ?thesis by simp
  qed
  have d: "p = 0 \<and> remoteState s4 \<and> out s4 = out s"
    if "10000 < t" "loop_body program s = Some (p, s4)"
  proof -
    from b [OF that(1)] that(2) obtain shown s3 where m: "millis s2 = Some (shown, s3)"
      and h: "hibernate s3 = Some s4" and p: "p = 0"
      by (auto split: option.splits)
    from hibernate_wakes [OF h] millis_out [OF m] o2 p show ?thesis by simp
  qed
  have e: "loop_body 0 s4 = (case staticColorProgram 25 255 25 s5 of None \<Rightarrow> None
                       | Some s6 \<Rightarrow> Some (1, s6))" if "switchOn s4 = Some (True, s5)"
    using that by (simp add: loop_body_def runProgram_def split: option.splits)
  have f: "q = 0" if "switchOn s4 = Some (False, s5)" "loop_body 0 s4 = Some (q, s6)"
    using that by (auto simp: loop_body_def split: option.splits if_splits)
  have c': "\<exists>x. loop_body program s = Some (0, x) \<and> remoteState x \<and> out x = out s"
    if "10000 < t" "rises 2 s2"
  proof -
    from c [OF that] obtain x where x: "loop_body program s = Some (0, x)" by blast
    from b [OF that(1)] x obtain shown s3 where m: "millis s2 = Some (shown, s3)"
      and h: "hibernate s3 = Some x"
      by (auto split: option.splits)
    from hibernate_wakes [OF h] millis_out [OF m] o2 x show ?thesis by simp
  qed
  have g: "lastOn s1 \<le> lastOff s1 \<and> lastOff s1 \<le> reading s1 0
           \<and> (lastOff s < lastOn s \<longrightarrow> lastOff s1 = reading s 3)"
    if "\<not> tested s" "unwrapped s"
    using off_stamps [OF assms(1) that(2,1)] rd by simp
  from rd a b c' d e f g o2 show ?thesis by blast
qed

theorem idle_after_threshold_witness:
  "loop_body 5 (boot (replicate 4 (tick 0) @ [tick 10000])) = Some (5, boot [])
   \<and> loop_body 5 (state_at 101 0 True
        [sig 900 False, tick 900, tick 901, tick 901, tick 902, tick 950])
       = Some (5, state_at 101 901 False [])
   \<and> \<not> tested (boot idle_run) \<and> unwrapped (boot idle_run)
   \<and> rises 2 (boot (drop 5 idle_run))
   \<and> loop_body 5 (boot idle_run) = Some (0, (boot (drop 9 idle_run))\<lparr>remoteState := True\<rparr>)
   \<and> loop_body 0 ((boot (drop 9 idle_run))\<lparr>remoteState := True\<rparr>)
      = Some (1, \<lparr>lastOn = 10202, lastOff = 10300, remoteState = False,
                  out = [(9, 25), (10, 255), (11, 25), (9, 0), (10, 0), (11, 0)],
                  env = [tick 10300]\<rparr>)"
proof -
  have a1: "switchOn (boot (replicate 4 (tick 0) @ [tick 10000]))
              = Some (False, boot [tick 10000])" by code_simp
  have a2: "millisSinceLastOff (boot [tick 10000]) = Some (10000, boot [])" by code_simp
  from idle_after_threshold [OF a1 a2, of 5]
  have a: "loop_body 5 (boot (replicate 4 (tick 0) @ [tick 10000])) = Some (5, boot [])"
    by simp
  let ?c = "state_at 101 0 True [sig 900 False, tick 900, tick 901, tick 901, tick 902, tick 950]"
  have c1: "switchOn ?c = Some (False, state_at 101 901 False [tick 950])" by code_simp
  have c2: "millisSinceLastOff (state_at 101 901 False [tick 950])
              = Some (49, state_at 101 901 False [])" by code_simp
  have c3: "\<not> tested ?c" "unwrapped ?c" "lastOff ?c < lastOn ?c" by code_simp+
  from idle_after_threshold [OF c1 c2, of 5] c3
  have c: "loop_body 5 ?c = Some (5, state_at 101 901 False [])"
    and "lastOff (state_at 101 901 False [tick 950]) = reading ?c 3"
    by simp_all
  let ?s4 = "(boot (drop 9 idle_run))\<lparr>remoteState := True\<rparr>"
  let ?s5 = "state_at 10202 0 True (drop 14 idle_run)"
  have b1: "switchOn (boot idle_run) = Some (False, boot (drop 4 idle_run))" by code_simp
  have b2: "millisSinceLastOff (boot (drop 4 idle_run)) = Some (10001, boot (drop 5 idle_run))"
    by code_simp
  have b3: "\<not> tested (boot idle_run)" "unwrapped (boot idle_run)"
    "rises 2 (boot (drop 5 idle_run))"
    by code_simp+
  have b4: "millis (boot (drop 5 idle_run)) = Some (10001, boot (drop 6 idle_run))"
    by code_simp
  have b5: "hibernate (boot (drop 6 idle_run)) = Some ?s4" by code_simp
  have b6: "switchOn ?s4 = Some (True, ?s5)" by code_simp
  have b7: "staticColorProgram 25 255 25 ?s5
      = Some \<lparr>lastOn = 10202, lastOff = 10300, remoteState = False,
                  out = [(9, 25), (10, 255), (11, 25), (9, 0), (10, 0), (11, 0)],
                  env = [tick 10300]\<rparr>" by code_simp
  from idle_after_threshold [OF b1 b2, of 5] b4 b5
  have b: "loop_body 5 (boot idle_run) = Some (0, ?s4)" by simp
  from idle_after_threshold [OF b1 b2, of 5 0 ?s4 ?s5] b b6 b7
  have "loop_body 0 ?s4
      = Some (1, \<lparr>lastOn = 10202, lastOff = 10300, remoteState = False,
                  out = [(9, 25), (10, 255), (11, 25), (9, 0), (10, 0), (11, 0)],
                  env = [tick 10300]\<rparr>)"
    by simp
  with a b b3 c show ?thesis by simp
qed

subsection \<open>Every effect program returns once the signal is off\<close>

lemma fade_ramp_steadily:
  assumes "steadily False (Suc m) s"
  shows "\<exists>s'. fade_ramp led d b f s = Some (f, s') \<and> steadily False m s'"
proof -
  from readRemoteState_steadily [OF assms] obtain s'
    where "readRemoteState s = Some (False, s')" "steadily False m s'" by blast
  then show ?thesis by (subst fade_ramp.simps) simp
qed

lemma fade_ramp_winding:
  "winding False n (m + 4) s \<Longrightarrow> m + 4 \<le> n \<Longrightarrow>
     \<exists>f' s'. fade_ramp led d b f s = Some (f', s') \<and> winding False n m s'"
proof (induction led d b f s rule: fade_ramp.induct)
  case (1 led d b f s)
  have "winding False n (Suc (m + 3)) s" by (rule winding_mono [OF "1.prems"(1)]) simp
  from readRemoteState_winding [OF this] "1.prems"(2) obtain s1
    where r: "readRemoteState s = Some (remoteState s1, s1)" and w: "winding False n (m + 3) s1"
    by auto
  show ?case
  proof (cases "remoteState s1")
    case False
    with r have "fade_ramp led d b f s = Some (f, s1)" by (subst fade_ramp.simps) simp
    with winding_mono [OF w, of m] show ?thesis by auto
  next
    case True
    define b' where "b' = b + f"
    define f2 where "f2 = (if b' \<le> 0 \<or> b' \<ge> 255 then - f else f)"
    from True w have "turns False n s1" by (auto dest: winding_flag)
    then have "winding False n ((n - 3) + 3) (setLed led b' s1)" by (simp add: turns_winding)
    from belay_winding [OF this, of d] "1.prems"(2) obtain s2
      where bl: "belay d (setLed led b' s1) = Some s2" and w2: "winding False n (n - 3) s2"
      by auto
    show ?thesis
    proof (cases "b' \<le> 0")
      case le: True
      with r bl True have "fade_ramp led d b f s = Some (f2, s2)"
        by (subst fade_ramp.simps) (simp add: Let_def b'_def f2_def)
      moreover have "winding False n m s2" by (rule winding_mono [OF w2]) (use "1.prems"(2) in simp)
      ultimately show ?thesis by blast
    next
      case gt: False
      have rec: "fade_ramp led d b f s = fade_ramp led d b' f2 s2"
        using r bl True gt by (subst fade_ramp.simps) (simp add: Let_def b'_def f2_def)
      show ?thesis
      proof (cases "turns False n s2")
        case t: True
        from "1.IH" [OF r refl _ b'_def f2_def bl gt turns_winding [OF t] "1.prems"(2)] True
        show ?thesis by (simp add: rec)
      next
        case False
        with w2 have "steadily False (n - 3) s2" by (simp add: winding_def)
        then have "steadily False (Suc m) s2" by (rule steadily_mono) (use "1.prems"(2) in simp)
        from fade_ramp_steadily [OF this, of led d b' f2] show ?thesis
          by (auto simp: rec winding_def)
      qed
    qed
  qed
qed

lemma fade_for_winding:
  "winding False n (m + 4 * length is) s \<Longrightarrow> m + 4 * length is \<le> n \<Longrightarrow>
     \<exists>f' s'. fade_for is d f s = Some (f', s') \<and> winding False n m s'"
proof (induction "is" arbitrary: f s)
  case Nil
  then show ?case by simp
next
  case (Cons i "is")
  have "winding False n ((m + 4 * length is) + 4) s" by (rule winding_mono [OF Cons.prems(1)]) simp
  from fade_ramp_winding [OF this, of "ledPins ! i" d 0 f] Cons.prems(2) obtain f1 s1
    where 1: "fade_ramp (ledPins ! i) d 0 f s = Some (f1, s1)"
      and w: "winding False n (m + 4 * length is) s1" by auto
  from Cons.IH [OF w, of f1] Cons.prems(2) 1 show ?case by auto
qed

lemma running_for_winding:
  "winding False n (m + 3 * length is) s \<Longrightarrow> m + 3 * length is \<le> n \<Longrightarrow>
     \<exists>s'. running_for is d s = Some s' \<and> winding False n m s'"
proof (induction "is" arbitrary: s)
  case Nil
  then show ?case by simp
next
  case (Cons i "is")
  have "winding False n ((m + 3 * length is) + 3) (setLed (ledPins ! i) 255 s)"
    unfolding winding_upd by (rule winding_mono [OF Cons.prems(1)]) simp
  from belay_winding [OF this, of d] Cons.prems(2) obtain s1
    where 1: "belay d (setLed (ledPins ! i) 255 s) = Some s1"
      and w: "winding False n (m + 3 * length is) s1" by auto
  from w have "winding False n (m + 3 * length is) (setLed (ledPins ! i) 0 s1)" by simp
  from Cons.IH [OF this] Cons.prems(2) 1 show ?case by auto
qed

lemma randomColor_winding:
  assumes "winding lv n (m + 3) s" and "m + 3 \<le> n"
  shows "\<exists>s'. randomColor s = Some s' \<and> winding lv n m s'"
proof -
  have "winding lv n (Suc (m + 2)) s" by (rule winding_mono [OF assms(1)]) simp
  from random2_winding [OF this, of 1 256] assms(2) obtain r s1
    where 1: "random2 1 256 s = Some (r, s1)" and w1: "winding lv n (m + 2) s1" by auto
  have "winding lv n (Suc (m + 1)) (setLed rLed r s1)"
    unfolding winding_upd by (rule winding_mono [OF w1]) simp
  from random2_winding [OF this, of 1 256] assms(2) obtain g s2
    where 2: "random2 1 256 (setLed rLed r s1) = Some (g, s2)"
      and w2: "winding lv n (m + 1) s2" by auto
  have "winding lv n (Suc m) (setLed gLed g s2)"
    unfolding winding_upd by (rule winding_mono [OF w2]) simp
  from random2_winding [OF this, of 1 256] assms(2) obtain b s3
    where 3: "random2 1 256 (setLed gLed g s2) = Some (b, s3)"
      and w3: "winding lv n m s3" by auto
  from 1 2 3 w3 show ?thesis by (simp add: randomColor_def)
qed

lemma randomChannel_winding:
  assumes "winding lv n (m + 2) s" and "m + 2 \<le> n"
  shows "\<exists>s'. randomChannel s = Some s' \<and> winding lv n m s'"
proof -
  have "winding lv n (Suc (m + 1)) s" by (rule winding_mono [OF assms(1)]) simp
  from random2_winding [OF this, of 1 256] assms(2) obtain v s1
    where 1: "random2 1 256 s = Some (v, s1)" and w1: "winding lv n (m + 1) s1" by auto
  have "winding lv n (Suc m) s1" by (rule winding_mono [OF w1]) simp
  from random1_winding [OF this, of 3] assms(2) obtain i s2
    where 2: "random1 3 s1 = Some (i, s2)" and w2: "winding lv n m s2" by auto
  from 1 2 w2 show ?thesis by (simp add: randomChannel_def)
qed

lemma staticColor_loop_returns:
  "winding False n (m + 5) s \<Longrightarrow> m + 5 \<le> n \<Longrightarrow> 6 \<le> n \<Longrightarrow>
     \<exists>s'. staticColor_loop s = Some s'"
proof (induction s arbitrary: m rule: staticColor_loop.induct)
  case (1 s)
  from switchOn_winding [OF "1.prems"(1,2)] obtain s1
    where sw: "switchOn s = Some (remoteState s1, s1)" and w: "winding False n m s1" by blast
  show ?case
  proof (cases "remoteState s1")
    case False
    with sw show ?thesis by (subst staticColor_loop.simps) simp
  next
    case True
    with w have "turns False n s1" by (auto dest: winding_flag)
    then have "winding False n (Suc (n - 6 + 5)) s1" by (rule turns_winding)
    from delay_winding [OF this, of fastPollMillis] "1.prems"(3) obtain s2
      where d: "delay fastPollMillis s1 = Some s2" and w2: "winding False n (n - 6 + 5) s2"
      by auto
    from "1.IH" [OF sw refl _ d w2 _ "1.prems"(3)] True "1.prems"(3)
    obtain s' where "staticColor_loop s2 = Some s'" by auto
    with sw d True show ?thesis by (subst staticColor_loop.simps) simp
  qed
qed


lemma fade_outer_returns:
  "winding False n (m + 5) s \<Longrightarrow> m + 5 \<le> n \<Longrightarrow> 17 \<le> n \<Longrightarrow>
     \<exists>s'. fade_outer d f s = Some s'"
proof (induction d f s arbitrary: m rule: fade_outer.induct)
  case (1 d f s)
  from switchOn_winding [OF "1.prems"(1,2)] obtain s1
    where sw: "switchOn s = Some (remoteState s1, s1)" and w: "winding False n m s1" by blast
  show ?case
  proof (cases "remoteState s1")
    case False
    with sw show ?thesis by (subst fade_outer.simps) simp
  next
    case True
    with w have "turns False n s1" by (auto dest: winding_flag)
    then have "winding False n (n - 17 + 5 + 4 * length [0, 1, 2 :: nat]) s1"
      by (rule turns_winding)
    from fade_for_winding [OF this, of d f] "1.prems"(3) obtain f' s2
      where b: "fade_for [0, 1, 2] d f s1 = Some (f', s2)"
        and w2: "winding False n (n - 17 + 5) s2"
      by auto
    from "1.IH" [OF sw refl _ b refl w2 _ "1.prems"(3)] True "1.prems"(3)
    obtain s' where "fade_outer d f' s2 = Some s'" by auto
    with sw b True show ?thesis by (subst fade_outer.simps) simp
  qed
qed

lemma alt_fade_loop_returns:
  "winding False n (m + 5) s \<Longrightarrow> m + 5 \<le> n \<Longrightarrow> 8 \<le> n \<Longrightarrow>
     \<exists>s'. alt_fade_loop d b f s = Some s'"
proof (induction d b f s arbitrary: m rule: alt_fade_loop.induct)
  case (1 d b f s)
  from switchOn_winding [OF "1.prems"(1,2)] obtain s1
    where sw: "switchOn s = Some (remoteState s1, s1)" and w: "winding False n m s1" by blast
  show ?case
  proof (cases "remoteState s1")
    case False
    with sw show ?thesis by (subst alt_fade_loop.simps) simp
  next
    case True
    define b' where "b' = b + f"
    define f2 where "f2 = (if b' \<le> 0 \<or> b' \<ge> 255 then - f else f)"
    from True w have "turns False n s1" by (auto dest: winding_flag)
    then have "winding False n (n - 8 + 5 + 3)
        (setLed bLed b' (setLed gLed b' (setLed rLed b' s1)))"
      by (simp add: turns_winding)
    from belay_winding [OF this, of d] "1.prems"(3) obtain s2
      where bl: "belay d (setLed bLed b' (setLed gLed b' (setLed rLed b' s1))) = Some s2"
        and w2: "winding False n (n - 8 + 5) s2"
      by auto
    from "1.IH" [OF sw refl _ b'_def f2_def bl w2 _ "1.prems"(3)] True "1.prems"(3)
    obtain s' where "alt_fade_loop d b' f2 s2 = Some s'" by auto
    with sw bl True show ?thesis
      by (subst alt_fade_loop.simps) (simp add: Let_def b'_def f2_def)
  qed
qed

lemma running_loop_returns:
  "winding False n (m + 5) s \<Longrightarrow> m + 5 \<le> n \<Longrightarrow> 14 \<le> n \<Longrightarrow>
     \<exists>s'. running_loop d s = Some s'"
proof (induction d s arbitrary: m rule: running_loop.induct)
  case (1 d s)
  from switchOn_winding [OF "1.prems"(1,2)] obtain s1
    where sw: "switchOn s = Some (remoteState s1, s1)" and w: "winding False n m s1" by blast
  show ?case
  proof (cases "remoteState s1")
    case False
    with sw show ?thesis by (subst running_loop.simps) simp
  next
    case True
    with w have "turns False n s1" by (auto dest: winding_flag)
    then have "winding False n (n - 14 + 5 + 3 * length [0, 1, 2 :: nat]) s1"
      by (rule turns_winding)
    from running_for_winding [OF this, of d] "1.prems"(3) obtain s2
      where b: "running_for [0, 1, 2] d s1 = Some s2"
        and w2: "winding False n (n - 14 + 5) s2"
      by auto
    from "1.IH" [OF sw refl _ b w2 _ "1.prems"(3)] True "1.prems"(3)
    obtain s' where "running_loop d s2 = Some s'" by auto
    with sw b True show ?thesis by (subst running_loop.simps) simp
  qed
qed

lemma blink_loop_returns:
  "winding False n (m + 5) s \<Longrightarrow> m + 5 \<le> n \<Longrightarrow> 11 \<le> n \<Longrightarrow>
     \<exists>s'. blink_loop d s = Some s'"
proof (induction d s arbitrary: m rule: blink_loop.induct)
  case (1 d s)
  from switchOn_winding [OF "1.prems"(1,2)] obtain s1
    where sw: "switchOn s = Some (remoteState s1, s1)" and w: "winding False n m s1" by blast
  show ?case
  proof (cases "remoteState s1")
    case False
    with sw show ?thesis by (subst blink_loop.simps) simp
  next
    case True
    with w have "turns False n s1" by (auto dest: winding_flag)
    then have "winding False n (n - 11 + 8 + 3)
        (setLed bLed 255 (setLed gLed 255 (setLed rLed 255 s1)))"
      by (simp add: turns_winding)
    from belay_winding [OF this, of d] "1.prems"(3) obtain s2
      where b1: "belay d (setLed bLed 255 (setLed gLed 255 (setLed rLed 255 s1))) = Some s2"
        and w2: "winding False n (n - 11 + 8) s2"
      by auto
    have "winding False n (n - 11 + 5 + 3) (ledsOff s2)"
      unfolding winding_upd by (rule winding_mono [OF w2]) simp
    from belay_winding [OF this, of "d sdiv 2"] "1.prems"(3) obtain s3
      where b2: "belay (d sdiv 2) (ledsOff s2) = Some s3"
        and w3: "winding False n (n - 11 + 5) s3"
      by auto
    from "1.IH" [OF sw refl _ b1 b2 w3 _ "1.prems"(3)] True "1.prems"(3)
    obtain s' where "blink_loop d s3 = Some s'" by auto
    with sw b1 b2 True show ?thesis by (subst blink_loop.simps) simp
  qed
qed

lemma colorBlaster_loop_returns:
  "winding False n (m + 5) s \<Longrightarrow> m + 5 \<le> n \<Longrightarrow> 11 \<le> n \<Longrightarrow>
     \<exists>s'. colorBlaster_loop d s = Some s'"
proof (induction d s arbitrary: m rule: colorBlaster_loop.induct)
  case (1 d s)
  from switchOn_winding [OF "1.prems"(1,2)] obtain s1
    where sw: "switchOn s = Some (remoteState s1, s1)" and w: "winding False n m s1" by blast
  show ?case
  proof (cases "remoteState s1")
    case False
    with sw show ?thesis by (subst colorBlaster_loop.simps) simp
  next
    case True
    with w have "turns False n s1" by (auto dest: winding_flag)
    then have "winding False n (n - 11 + 8 + 3) s1" by (rule turns_winding)
    from randomColor_winding [OF this] "1.prems"(3) obtain s2
      where b1: "randomColor s1 = Some s2" and w2: "winding False n (n - 11 + 8) s2"
      by auto
    have "winding False n (n - 11 + 5 + 3) s2" by (rule winding_mono [OF w2]) simp
    from belay_winding [OF this, of d] "1.prems"(3) obtain s3
      where b2: "belay d s2 = Some s3" and w3: "winding False n (n - 11 + 5) s3"
      by auto
    from "1.IH" [OF sw refl _ b1 b2 w3 _ "1.prems"(3)] True "1.prems"(3)
    obtain s' where "colorBlaster_loop d s3 = Some s'" by auto
    with sw b1 b2 True show ?thesis by (subst colorBlaster_loop.simps) simp
  qed
qed

lemma alt_colorBlaster_loop_returns:
  "winding False n (m + 5) s \<Longrightarrow> m + 5 \<le> n \<Longrightarrow> 10 \<le> n \<Longrightarrow>
     \<exists>s'. alt_colorBlaster_loop d s = Some s'"
proof (induction d s arbitrary: m rule: alt_colorBlaster_loop.induct)
  case (1 d s)
  from switchOn_winding [OF "1.prems"(1,2)] obtain s1
    where sw: "switchOn s = Some (remoteState s1, s1)" and w: "winding False n m s1" by blast
  show ?case
  proof (cases "remoteState s1")
    case False
    with sw show ?thesis by (subst alt_colorBlaster_loop.simps) simp
  next
    case True
    with w have "turns False n s1" by (auto dest: winding_flag)
    then have "winding False n (n - 10 + 8 + 2) s1" by (rule turns_winding)
    moreover have "n - 10 + 8 + 2 \<le> n" using "1.prems"(3) by simp
    ultimately obtain s2
      where b1: "randomChannel s1 = Some s2" and w2: "winding False n (n - 10 + 8) s2"
      using randomChannel_winding by blast
    have "winding False n (n - 10 + 5 + 3) s2" by (rule winding_mono [OF w2]) simp
    from belay_winding [OF this, of d] "1.prems"(3) obtain s3
      where b2: "belay d s2 = Some s3" and w3: "winding False n (n - 10 + 5) s3"
      by auto
    from "1.IH" [OF sw refl _ b1 b2 w3 _ "1.prems"(3)] True "1.prems"(3)
    obtain s' where "alt_colorBlaster_loop d s3 = Some s'" by auto
    with sw b1 b2 True show ?thesis by (subst alt_colorBlaster_loop.simps) simp
  qed
qed

lemma effects_return:
  assumes "settles 17 s"
  shows "\<exists>s'. staticColorProgram r g b s = Some s'"
    and "\<exists>s'. fadeLedProgram fadeAmount delayMillis s = Some s'"
    and "\<exists>s'. alt_fadeLedProgram fadeAmount delayMillis s = Some s'"
    and "\<exists>s'. runningColorsProgram delayMillis s = Some s'"
    and "\<exists>s'. blinkLedProgram delayMillis s = Some s'"
    and "\<exists>s'. colorBlasterProgram delayMillis s = Some s'"
    and "\<exists>s'. alt_colorBlasterProgram delayMillis s = Some s'"
proof -
  from assms have w: "winding False 17 (12 + 5) s" by (simp add: settles_turns turns_winding)
  then have "winding False 17 (12 + 5) (setLed bLed b (setLed gLed g (setLed rLed r s)))"
    by simp
  from staticColor_loop_returns [OF this]
  show "\<exists>s'. staticColorProgram r g b s = Some s'"
    by (auto simp: staticColorProgram_def)
  from fade_outer_returns [OF w, of delayMillis fadeAmount]
  show "\<exists>s'. fadeLedProgram fadeAmount delayMillis s = Some s'"
    by (auto simp: fadeLedProgram_def)
  from alt_fade_loop_returns [OF w, of delayMillis 0 fadeAmount]
  show "\<exists>s'. alt_fadeLedProgram fadeAmount delayMillis s = Some s'"
    by (auto simp: alt_fadeLedProgram_def)
  from running_loop_returns [OF w, of delayMillis]
  show "\<exists>s'. runningColorsProgram delayMillis s = Some s'"
    by (auto simp: runningColorsProgram_def)
  from blink_loop_returns [OF w, of delayMillis]
  show "\<exists>s'. blinkLedProgram delayMillis s = Some s'"
    by (auto simp: blinkLedProgram_def)
  from colorBlaster_loop_returns [OF w, of delayMillis]
  show "\<exists>s'. colorBlasterProgram delayMillis s = Some s'"
    by (auto simp: colorBlasterProgram_def)
  from w have "winding False 17 (9 + 5 + 3) s" by simp
  from randomColor_winding [OF this] obtain s0
    where rc: "randomColor s = Some s0" and w0: "winding False 17 (9 + 5) s0" by auto
  from alt_colorBlaster_loop_returns [OF w0, of delayMillis] rc
  show "\<exists>s'. alt_colorBlasterProgram delayMillis s = Some s'"
    by (auto simp: alt_colorBlasterProgram_def)
qed

text \<open>
  C2. Each of the seven effect programs, whenever it returns, returns with the flag off
  and with the three channels set to 0 by its last three calls of \<^verbatim>\<open>analogWrite\<close>.
  And each does return: if at some point the signal is off and stays off for the next 17
  observations, whatever it did before and whatever the arguments, the program comes back
  with the channels at 0.
\<close>

theorem effects_end_with_ledsOff:
  "(staticColorProgram r g b s = Some s' \<longrightarrow> returned_dark s') \<and>
   (fadeLedProgram fadeAmount delayMillis s = Some s' \<longrightarrow> returned_dark s') \<and>
   (alt_fadeLedProgram fadeAmount delayMillis s = Some s' \<longrightarrow> returned_dark s') \<and>
   (runningColorsProgram delayMillis s = Some s' \<longrightarrow> returned_dark s') \<and>
   (blinkLedProgram delayMillis s = Some s' \<longrightarrow> returned_dark s') \<and>
   (colorBlasterProgram delayMillis s = Some s' \<longrightarrow> returned_dark s') \<and>
   (alt_colorBlasterProgram delayMillis s = Some s' \<longrightarrow> returned_dark s') \<and>
   (settles 17 s \<longrightarrow>
      (\<exists>x. staticColorProgram r g b s = Some x \<and> returned_dark x) \<and>
      (\<exists>x. fadeLedProgram fadeAmount delayMillis s = Some x \<and> returned_dark x) \<and>
      (\<exists>x. alt_fadeLedProgram fadeAmount delayMillis s = Some x \<and> returned_dark x) \<and>
      (\<exists>x. runningColorsProgram delayMillis s = Some x \<and> returned_dark x) \<and>
      (\<exists>x. blinkLedProgram delayMillis s = Some x \<and> returned_dark x) \<and>
      (\<exists>x. colorBlasterProgram delayMillis s = Some x \<and> returned_dark x) \<and>
      (\<exists>x. alt_colorBlasterProgram delayMillis s = Some x \<and> returned_dark x))"
proof -
  have "\<exists>x. staticColorProgram r g b s = Some x \<and> returned_dark x" if "settles 17 s"
    using effects_return(1) [OF that, of r g b] effects_return_dark [of r g b s] by blast
  moreover
  have "\<exists>x. fadeLedProgram fadeAmount delayMillis s = Some x \<and> returned_dark x"
    if "settles 17 s"
    using effects_return(2) [OF that, of fadeAmount delayMillis]
      effects_return_dark [of _ _ _ s _ fadeAmount delayMillis] by blast
  moreover
  have "\<exists>x. alt_fadeLedProgram fadeAmount delayMillis s = Some x \<and> returned_dark x"
    if "settles 17 s"
    using effects_return(3) [OF that, of fadeAmount delayMillis]
      effects_return_dark [of _ _ _ s _ fadeAmount delayMillis] by blast
  moreover
  have "\<exists>x. runningColorsProgram delayMillis s = Some x \<and> returned_dark x" if "settles 17 s"
    using effects_return(4) [OF that, of delayMillis]
      effects_return_dark [of _ _ _ s _ _ delayMillis] by blast
  moreover
  have "\<exists>x. blinkLedProgram delayMillis s = Some x \<and> returned_dark x" if "settles 17 s"
    using effects_return(5) [OF that, of delayMillis]
      effects_return_dark [of _ _ _ s _ _ delayMillis] by blast
  moreover
  have "\<exists>x. colorBlasterProgram delayMillis s = Some x \<and> returned_dark x" if "settles 17 s"
    using effects_return(6) [OF that, of delayMillis]
      effects_return_dark [of _ _ _ s _ _ delayMillis] by blast
  moreover
  have "\<exists>x. alt_colorBlasterProgram delayMillis s = Some x \<and> returned_dark x"
    if "settles 17 s"
    using effects_return(7) [OF that, of delayMillis]
      effects_return_dark [of _ _ _ s _ _ delayMillis] by blast
  ultimately show ?thesis
    using effects_return_dark [of r g b s s' fadeAmount delayMillis] by blast
qed

theorem effects_end_with_ledsOff_witness:
  "remoteState ((boot (steady 40 12))\<lparr>remoteState := True\<rparr>) \<and>
   settles 17 ((boot (steady 40 12))\<lparr>remoteState := True\<rparr>) \<and>
   (\<exists>x. staticColorProgram 25 255 25 ((boot (steady 40 12))\<lparr>remoteState := True\<rparr>) = Some x
      \<and> returned_dark x) \<and>
   (\<exists>x. fadeLedProgram 5 30 ((boot (steady 40 12))\<lparr>remoteState := True\<rparr>) = Some x
      \<and> returned_dark x) \<and>
   (\<exists>x. alt_fadeLedProgram 5 30 ((boot (steady 40 12))\<lparr>remoteState := True\<rparr>) = Some x
      \<and> returned_dark x) \<and>
   (\<exists>x. runningColorsProgram 80 ((boot (steady 40 12))\<lparr>remoteState := True\<rparr>) = Some x
      \<and> returned_dark x) \<and>
   (\<exists>x. blinkLedProgram 350 ((boot (steady 40 12))\<lparr>remoteState := True\<rparr>) = Some x
      \<and> returned_dark x) \<and>
   (\<exists>x. colorBlasterProgram 500 ((boot (steady 40 12))\<lparr>remoteState := True\<rparr>) = Some x
      \<and> returned_dark x) \<and>
   (\<exists>x. alt_colorBlasterProgram 250 ((boot (steady 40 12))\<lparr>remoteState := True\<rparr>) = Some x
      \<and> returned_dark x)"
proof -
  let ?s = "(boot (steady 40 12))\<lparr>remoteState := True\<rparr>"
  have h: "settles 17 ?s" by code_simp
  have r: "remoteState ?s" by simp
  from effects_end_with_ledsOff [of 25 255 25 ?s _ 5 30] h
  have 1: "\<exists>x. staticColorProgram 25 255 25 ?s = Some x \<and> returned_dark x"
    and 2: "\<exists>x. fadeLedProgram 5 30 ?s = Some x \<and> returned_dark x"
    and 3: "\<exists>x. alt_fadeLedProgram 5 30 ?s = Some x \<and> returned_dark x"
    by blast+
  from effects_end_with_ledsOff [of _ _ _ ?s _ _ 80] h
  have 4: "\<exists>x. runningColorsProgram 80 ?s = Some x \<and> returned_dark x" by blast
  from effects_end_with_ledsOff [of _ _ _ ?s _ _ 350] h
  have 5: "\<exists>x. blinkLedProgram 350 ?s = Some x \<and> returned_dark x" by blast
  from effects_end_with_ledsOff [of _ _ _ ?s _ _ 500] h
  have 6: "\<exists>x. colorBlasterProgram 500 ?s = Some x \<and> returned_dark x" by blast
  from effects_end_with_ledsOff [of _ _ _ ?s _ _ 250] h
  have 7: "\<exists>x. alt_colorBlasterProgram 250 ?s = Some x \<and> returned_dark x" by blast
  from h r 1 2 3 4 5 6 7 show ?thesis by blast
qed

subsection \<open>The fade ramps\<close>

text \<open>
  C1. Both fade programs add the step, reverse the direction once the sum has left the open
  interval from 0 to 255, and write the sum as it is. With a step that does not divide 255
  the sum steps over 255 and the value beyond the range reaches the sink: with
  \<^verbatim>\<open>fadeAmount = 128\<close> and the signal held on, the second step of either program writes
  256.
\<close>

theorem fade_overshoot:
  "map_option out (fadeLedProgram 128 30 (boot (steady 20 11)))
     = Some [(rLed, 128), (rLed, 256), (rLed, 0), (gLed, 0), (bLed, 0)]
   \<and> map_option out (alt_fadeLedProgram 128 30 (boot (steady 24 14)))
     = Some [(rLed, 128), (gLed, 128), (bLed, 128), (rLed, 256), (gLed, 256), (bLed, 256),
             (rLed, 0), (gLed, 0), (bLed, 0)]"
  by code_simp

end
